theory Spec2Isabelle
  imports Complex_Main "HOL-Library.Word" "HOL-Library.Log_Nat" "HOL-Library.Multiset"
begin

unbundle bit_operations_syntax

section \<open>Values of the benchmark\<close>

text \<open>
  A \<open>Buffer\<close> is a list of bytes. JavaScript numbers that hold measured times are
  rationals (every finite double is one); counters and indices are naturals. A thrown
  value is an \<open>Error\<close> of which the runner reads \<open>e?.message\<close> and \<open>e?.code\<close>, either
  of which may be \<open>undefined\<close>.
\<close>

type_synonym byte = "8 word"

type_synonym buffer = "byte list"

datatype js_error = JsError (message: "string option") (code: "string option")

text \<open>
  A promise is described by how it settles: \<open>Settles d r\<close> settles \<open>d\<close> milliseconds
  after it was created, fulfilled with \<open>Inr v\<close> or rejected with \<open>Inl e\<close>;
  \<open>Never\<close> stays pending for ever.
\<close>

datatype 'a promise = Settles rat "js_error + 'a" | Never

datatype number = NaN | Num rat

subsection \<open>Template literals\<close>

text \<open>\<open>`${i}`\<close> for a non-negative integer \<open>i\<close>: its decimal digits.\<close>

definition digit_char :: "nat \<Rightarrow> char" where
  "digit_char d = ''0123456789'' ! d"

function string_of_nat :: "nat \<Rightarrow> string" where
  "string_of_nat n =
     (if n < 10 then [digit_char n] else string_of_nat (n div 10) @ [digit_char (n mod 10)])"
  by pat_completeness auto

termination
  by (relation "measure id") auto

declare string_of_nat.simps [simp del]

text \<open>\<open>Buffer.from(s)\<close> for an ASCII string: one byte per character.\<close>

definition Buffer_from :: "string \<Rightarrow> buffer" where
  "Buffer_from s = map (\<lambda>c. of_nat (of_char c)) s"

text \<open>\<open>buf.toString("hex")\<close>: two lower-case hexadecimal digits per byte.\<close>

definition hex_digit :: "nat \<Rightarrow> char" where
  "hex_digit d = ''0123456789abcdef'' ! d"

definition toString_hex :: "buffer \<Rightarrow> string" where
  "toString_hex b = concat (map (\<lambda>x. [hex_digit (unat x div 16), hex_digit (unat x mod 16)]) b)"

section \<open>Deterministic PRNG\<close>

text \<open>
  The closure variable \<open>t\<close> of \<open>mulberry32\<close> is a JavaScript number that is never
  reduced: \<open>t += 0x6d2b79f5\<close> is a double addition, exact below \<open>2^53\<close> and rounded to
  the nearest double (ties to even) above. Every use of \<open>t\<close> goes through a 32-bit
  operator (\<open>^\<close>, \<open>>>>\<close>, \<open>|\<close>, \<open>Math.imul\<close>), which reads \<open>t\<close> modulo \<open>2^32\<close>.
\<close>

definition round_double :: "nat \<Rightarrow> nat" where
  "round_double x =
     (if x < 2 ^ 53 then x
      else let e = floorlog 2 x - 53; q = x div 2 ^ e; r = x mod 2 ^ e; h = 2 ^ (e - 1)
           in (if r < h \<or> (r = h \<and> even q) then q else q + 1) * 2 ^ e)"

definition mulberry32_mix :: "32 word \<Rightarrow> 32 word" where
  "mulberry32_mix t =
     (let n = (t XOR drop_bit 15 t) * (1 OR t);
          n = n XOR (n + (n XOR drop_bit 7 n) * (61 OR n))
      in n XOR drop_bit 14 n)"

text \<open>One call of the function returned by \<open>mulberry32\<close>: the value and the new \<open>t\<close>.\<close>

definition mulberry32_call :: "nat \<Rightarrow> rat \<times> nat" where
  "mulberry32_call t =
     (let t = round_double (t + 0x6d2b79f5)
      in (of_nat (unat (mulberry32_mix (word_of_nat t))) / 4294967296, t))"

text \<open>
  Each call of \<open>mulberry32(seed)\<close> allocates a fresh closure cell holding
  \<open>t = seed >>> 0\<close>. The heap lists the cells of all generators built so far; a
  generator is the index of its cell.
\<close>

type_synonym heap = "nat list"

definition mulberry32 :: "int \<Rightarrow> heap \<Rightarrow> nat \<times> heap" where
  "mulberry32 seed h = (length h, h @ [nat (seed mod 2 ^ 32)])"

definition gen_call :: "nat \<Rightarrow> heap \<Rightarrow> rat \<times> heap" where
  "gen_call g h = (let (v, t) = mulberry32_call (h ! g) in (v, h[g := t]))"

text \<open>A sequence of calls, each naming the generator it calls, with the values returned.\<close>

fun gen_calls :: "nat list \<Rightarrow> heap \<Rightarrow> (nat \<times> rat) list \<times> heap" where
  "gen_calls [] h = ([], h)"
| "gen_calls (g # gs) h =
     (let (v, h1) = gen_call g h; (vs, h2) = gen_calls gs h1 in ((g, v) # vs, h2))"

definition outputs_of :: "nat \<Rightarrow> (nat \<times> rat) list \<Rightarrow> rat list" where
  "outputs_of g vs = map snd (filter (\<lambda>x. fst x = g) vs)"

text \<open>The first \<open>n\<close> values of one generator whose cell holds \<open>t\<close>.\<close>

fun mulberry32_seq :: "nat \<Rightarrow> nat \<Rightarrow> rat list" where
  "mulberry32_seq 0 t = []"
| "mulberry32_seq (Suc n) t = (let (v, t1) = mulberry32_call t in v # mulberry32_seq n t1)"

text \<open>
  \<open>randBuf(len)\<close> fills a buffer from the module-level generator \<open>rand\<close>, whose cell
  is passed in and returned.
\<close>

fun randBuf :: "nat \<Rightarrow> nat \<Rightarrow> buffer \<times> nat" where
  "randBuf 0 t = ([], t)"
| "randBuf (Suc len) t =
     (let (v, t1) = mulberry32_call t; (b, t2) = randBuf len t1
      in (of_int \<lfloor>v * 256\<rfloor> # b, t2))"

section \<open>Input generator\<close>

text \<open>
  \<open>mode\<close> is the lower-cased command-line string; only the comparison with
  \<open>"random"\<close> selects random buffers (password first, then salt), every other mode
  gets the index-derived pair.
\<close>

definition mkInput :: "string \<Rightarrow> nat \<Rightarrow> nat \<Rightarrow> (buffer \<times> buffer) \<times> nat" where
  "mkInput mode i t =
     (if mode = ''random''
      then (let (pwd, t1) = randBuf (16 + i mod 16) t;
                (salt, t2) = randBuf (16 + (i * 7) mod 16) t1
            in ((pwd, salt), t2))
      else ((Buffer_from (''pwd-'' @ string_of_nat i),
             Buffer_from (''salt-'' @ string_of_nat i)), t))"

section \<open>Timeout guard\<close>

definition timeout_error :: "nat \<Rightarrow> string \<Rightarrow> js_error" where
  "timeout_error ms label =
     JsError (Some (''timeout after '' @ string_of_nat ms @ ''ms: '' @ label)) None"

text \<open>
  The delay handed to \<open>setTimeout\<close> is a 32-bit quantity of the runtime: a delay
  below 1 or above \<open>2^31 - 1\<close> milliseconds is replaced by 1 millisecond. The message
  of the error still carries the \<open>ms\<close> that was asked for.
\<close>

definition timer_delay :: "nat \<Rightarrow> nat" where
  "timer_delay ms = (if 1 \<le> ms \<and> ms \<le> 2147483647 then ms else 1)"

text \<open>
  \<open>Promise.race([promise, timeout])\<close> settles as whichever settles first; when both
  are settled at the same instant the first array element, the operation, wins.
\<close>

definition withTimeout :: "'a promise \<Rightarrow> nat \<Rightarrow> string \<Rightarrow> js_error + 'a" where
  "withTimeout promise ms label =
     (case promise of
        Settles d r \<Rightarrow>
          if d \<le> of_nat (timer_delay ms) then r else Inl (timeout_error ms label)
      | Never \<Rightarrow> Inl (timeout_error ms label))"

text \<open>
  The same function with the timer table of the event loop threaded through.
  \<open>setTimeout\<close> arms a timer and returns its handle, a timer that elapses runs its
  callback and is no longer armed, and \<open>clearTimeout\<close> disarms a handle (a no-op on a
  handle that is not armed). Every action on the table is logged, an armed timer with
  the delay it really runs for.
\<close>

datatype timer_event = Armed nat nat | Elapsed nat | Cleared nat

record timers =
  armed :: "nat list"
  next_handle :: nat
  timer_log :: "timer_event list"

definition setTimeout :: "nat \<Rightarrow> timers \<Rightarrow> nat \<times> timers" where
  "setTimeout ms tm =
     (next_handle tm,
      tm\<lparr>armed := next_handle tm # armed tm, next_handle := Suc (next_handle tm),
         timer_log := timer_log tm @ [Armed (next_handle tm) (timer_delay ms)]\<rparr>)"

definition elapse :: "nat \<Rightarrow> timers \<Rightarrow> timers" where
  "elapse h tm = tm\<lparr>armed := removeAll h (armed tm), timer_log := timer_log tm @ [Elapsed h]\<rparr>"

definition clearTimeout :: "nat \<Rightarrow> timers \<Rightarrow> timers" where
  "clearTimeout h tm = tm\<lparr>armed := removeAll h (armed tm), timer_log := timer_log tm @ [Cleared h]\<rparr>"

definition withTimeout_timers ::
  "'a promise \<Rightarrow> nat \<Rightarrow> string \<Rightarrow> timers \<Rightarrow> (js_error + 'a) \<times> timers" where
  "withTimeout_timers promise ms label tm =
     (let (timer, tm1) = setTimeout ms tm in
      case promise of
        Settles d r \<Rightarrow>
          if d \<le> of_nat (timer_delay ms) then (r, clearTimeout timer tm1)
          else (Inl (timeout_error ms label), clearTimeout timer (elapse timer tm1))
      | Never \<Rightarrow> (Inl (timeout_error ms label), clearTimeout timer (elapse timer tm1)))"

text \<open>A well-formed timer table only mentions handles it has handed out.\<close>

definition timer_handle :: "timer_event \<Rightarrow> nat" where
  "timer_handle e = (case e of Armed h ms \<Rightarrow> h | Elapsed h \<Rightarrow> h | Cleared h \<Rightarrow> h)"

definition timers_wf :: "timers \<Rightarrow> bool" where
  "timers_wf tm =
     (list_all (\<lambda>h. h < next_handle tm) (armed tm) \<and>
      list_all (\<lambda>e. timer_handle e < next_handle tm) (timer_log tm))"

section \<open>Metrics\<close>

text \<open>
  \<open>(p / 100) * sorted.length\<close> is double arithmetic: the quotient is rounded to the
  nearest binary64 number, and so is the product. A finite double is the rational it
  denotes, and the sign of zero plays no part here. \<open>round_binary64\<close> rounds a rational
  to the nearest double, ties to even: 53 significant bits, exponents from \<open>-1022\<close>
  (below which the spacing \<open>2^-1074\<close> of the subnormal numbers stays), and an infinity
  when the rounded value reaches \<open>2^1024\<close>. \<open>binade x\<close> is the exponent \<open>e\<close> with
  \<open>2^e \<le> x < 2^(e+1)\<close> of a positive \<open>x\<close>.
\<close>

datatype double = Finite rat | PosInf | NegInf

definition pow2 :: "int \<Rightarrow> rat" where
  "pow2 e = (if 0 \<le> e then 2 ^ nat e else 1 / 2 ^ nat (- e))"

definition binade :: "rat \<Rightarrow> int" where
  "binade x = (if 1 \<le> x then bitlen \<lfloor>x\<rfloor> - 1 else - bitlen (\<lceil>1 / x\<rceil> - 1))"

definition round_half_even :: "rat \<Rightarrow> int" where
  "round_half_even y =
     (let f = \<lfloor>y\<rfloor>; r = y - of_int f
      in if r < 1 / 2 \<or> (r = 1 / 2 \<and> even f) then f else f + 1)"

definition round_binary64 :: "rat \<Rightarrow> double" where
  "round_binary64 x =
     (if x = 0 then Finite 0
      else let e = max (binade \<bar>x\<bar>) (- 1022); u = pow2 (e - 52);
               y = of_int (round_half_even (x / u)) * u
           in if 2 ^ 1024 \<le> y then PosInf else if y \<le> - (2 ^ 1024) then NegInf else Finite y)"

text \<open>
  \<open>(p / 100) * n\<close> for a finite number \<open>p\<close> and a length \<open>n\<close>, which is a double as
  it stands (an array is shorter than \<open>2^32\<close>).
\<close>

definition scaled_rank :: "rat \<Rightarrow> nat \<Rightarrow> double" where
  "scaled_rank p n =
     (case round_binary64 (p / 100) of
        Finite q \<Rightarrow> round_binary64 (q * of_nat n)
      | PosInf \<Rightarrow> PosInf
      | NegInf \<Rightarrow> NegInf)"

text \<open>
  \<open>Math.ceil\<close> of a double is exact. The subtraction of 1 is exact up to \<open>2^53\<close> and
  leaves a larger magnitude larger than every length, so that \<open>Math.max\<close> and
  \<open>Math.min\<close> give the same index as with the exact difference; an infinite product
  ends at the last index, or at the first if it is negative.
\<close>

definition percentile :: "rat list \<Rightarrow> rat \<Rightarrow> number" where
  "percentile sorted_arr p =
     (if length sorted_arr = 0 then NaN
      else let idx = (case scaled_rank p (length sorted_arr) of
                        Finite x \<Rightarrow> min (int (length sorted_arr) - 1) (max 0 (\<lceil>x\<rceil> - 1))
                      | PosInf \<Rightarrow> int (length sorted_arr) - 1
                      | NegInf \<Rightarrow> 0)
           in Num (sorted_arr ! nat idx))"

text \<open>
  The index as the specification words it, \<open>clamp(ceil(p/100 * N) - 1, 0, N-1)\<close>, in
  exact arithmetic.
\<close>

definition clamp :: "int \<Rightarrow> int \<Rightarrow> int \<Rightarrow> int" where
  "clamp x lo hi = (if x < lo then lo else if hi < x then hi else x)"

definition nearest_rank_index :: "rat \<Rightarrow> nat \<Rightarrow> int" where
  "nearest_rank_index p N = clamp (\<lceil>p / 100 * of_nat N\<rceil> - 1) 0 (int N - 1)"

section \<open>Batch runner with metrics\<close>

text \<open>
  The runner of the later file (latencies and percentiles). Its three adapters hand
  the arguments to \<open>crypto.scrypt\<close> unchanged and settle as it does: fulfilled with
  the derived key or rejected with its error (a synchronous throw inside the promise
  executor is a rejection too).
\<close>

datatype variant = callback | utilPromisify | manualPromise

definition variant_name :: "variant \<Rightarrow> string" where
  "variant_name v =
     (case v of callback \<Rightarrow> ''callback'' | utilPromisify \<Rightarrow> ''utilPromisify''
      | manualPromise \<Rightarrow> ''manualPromise'')"

text \<open>The options bag \<open>{N, r, p, maxmem}\<close>.\<close>

type_synonym scrypt_opts = "nat \<times> nat \<times> nat \<times> nat"

type_synonym primitive = "buffer \<Rightarrow> buffer \<Rightarrow> nat \<Rightarrow> scrypt_opts \<Rightarrow> buffer promise"

definition variants :: "variant \<Rightarrow> primitive \<Rightarrow> primitive" where
  "variants v prim pwd salt keyLen opts =
     (case v of
        callback \<Rightarrow> prim pwd salt keyLen opts
      | utilPromisify \<Rightarrow> prim pwd salt keyLen opts
      | manualPromise \<Rightarrow> prim pwd salt keyLen opts)"

text \<open>
  The module-level constants a batch reads: the mode string and the primitive. The
  primitive is opaque; \<open>scrypt env n\<close> is how it behaves at the \<open>n\<close>-th invocation of
  the batch (counted from 0), so that its result, error or failure to settle may
  depend on the arguments and on the call order in any way.
\<close>

record env =
  mode :: string
  scrypt :: "nat \<Rightarrow> primitive"

text \<open>The argument object of \<open>runBatch\<close>.\<close>

record batch_args =
  variant :: variant
  concurrency :: nat
  iterations :: nat
  keyLen :: nat
  opts :: scrypt_opts

datatype err_record =
    Mismatch nat string string
  | Error nat "string option" "string option"

text \<open>
  What happened so far, as an auxiliary history that the code does not keep:
  \<open>Pop w i\<close>, worker \<open>w\<close> took index \<open>i\<close> off the queue; \<open>Invoke w i n p\<close>, it made the
  \<open>n\<close>-th invocation of the primitive for index \<open>i\<close> and got the promise \<open>p\<close>;
  \<open>CountOk w i\<close> and \<open>CountFail w i\<close>, it ran \<open>ok++\<close> or \<open>fail++\<close> for index \<open>i\<close>.
\<close>

datatype event =
    Pop nat nat
  | Invoke nat nat nat "buffer promise"
  | CountOk nat nat
  | CountFail nat nat

text \<open>
  A worker is an async function; between two turns of the event loop it is either
  finished or suspended at one of its two \<open>await\<close>s, holding its index, how the
  awaited \<open>runOnce(i)\<close> will settle and, at the second \<open>await\<close>, the first result
  \<open>a = {dk, ms}\<close>.
\<close>

datatype worker =
    Finished
  | AwaitA nat "js_error + buffer \<times> rat"
  | AwaitB nat "buffer \<times> rat" "js_error + buffer \<times> rat"

text \<open>
  The variables shared by the workers of one batch, together with the cell of the
  module-level generator \<open>rand\<close>, the number of invocations made and the history.
\<close>

record state =
  queue :: "nat list"
  ok :: nat
  fail :: nat
  errors :: "err_record list"
  callDurations :: "rat list"
  rand_t :: nat
  invocations :: nat
  workers :: "worker list"
  history :: "event list"

definition settle_delay :: "'a promise \<Rightarrow> rat" where
  "settle_delay q = (case q of Settles d r \<Rightarrow> d | Never \<Rightarrow> 0)"

text \<open>
  \<open>runOnce(i)\<close> up to its \<open>await\<close>: it builds the input, invokes the adapter and
  guards the promise. What is returned is how the promise of \<open>runOnce\<close> settles; the
  time \<open>t1 - t0\<close> it reports is the delay after which the guarded promise settled.
\<close>

definition runOnce ::
  "env \<Rightarrow> batch_args \<Rightarrow> nat \<Rightarrow> nat \<Rightarrow> state \<Rightarrow> (js_error + buffer \<times> rat) \<times> state" where
  "runOnce env a w i st =
     (let ((pwd, salt), t) = mkInput (mode env) i (rand_t st);
          promise = variants (variant a) (scrypt env (invocations st)) pwd salt (keyLen a) (opts a);
          dk = withTimeout promise 60000 (variant_name (variant a) @ '' i='' @ string_of_nat i)
      in (case dk of Inl e \<Rightarrow> Inl e | Inr k \<Rightarrow> Inr (k, settle_delay promise),
          st\<lparr>rand_t := t, invocations := Suc (invocations st),
             history := history st @ [Invoke w i (invocations st) promise]\<rparr>))"

text \<open>
  The head of the worker's loop up to the first \<open>await\<close>: leave when the queue is
  empty, otherwise pop the last index and start \<open>runOnce\<close> on it.
\<close>

definition worker_loop :: "env \<Rightarrow> batch_args \<Rightarrow> nat \<Rightarrow> state \<Rightarrow> state" where
  "worker_loop env a w st =
     (if length (queue st) = 0 then st\<lparr>workers := (workers st)[w := Finished]\<rparr>
      else let i = last (queue st);
               (r, st1) = runOnce env a w i
                  (st\<lparr>queue := butlast (queue st), history := history st @ [Pop w i]\<rparr>)
           in st1\<lparr>workers := (workers st1)[w := AwaitA i r]\<rparr>)"

text \<open>The \<open>catch\<close> block.\<close>

definition catch_block :: "nat \<Rightarrow> nat \<Rightarrow> js_error \<Rightarrow> state \<Rightarrow> state" where
  "catch_block w i e st =
     st\<lparr>fail := Suc (fail st), errors := errors st @ [Error i (message e) (code e)],
        history := history st @ [CountFail w i]\<rparr>"

text \<open>
  One turn of worker \<open>w\<close>: it continues after the \<open>await\<close> it is suspended at and runs
  to its next \<open>await\<close> or to its end.
\<close>

definition resume :: "env \<Rightarrow> batch_args \<Rightarrow> nat \<Rightarrow> state \<Rightarrow> state" where
  "resume env a w st =
     (case workers st ! w of
        Finished \<Rightarrow> st
      | AwaitA i r \<Rightarrow>
          (case r of
             Inl e \<Rightarrow> worker_loop env a w (catch_block w i e st)
           | Inr x \<Rightarrow>
               let st1 = st\<lparr>callDurations := callDurations st @ [snd x]\<rparr> in
               if mode env = ''sequential''
               then let (r2, st2) = runOnce env a w i st1
                    in st2\<lparr>workers := (workers st2)[w := AwaitB i x r2]\<rparr>
               else worker_loop env a w
                      (st1\<lparr>ok := Suc (ok st1), history := history st1 @ [CountOk w i]\<rparr>))
      | AwaitB i x r \<Rightarrow>
          (case r of
             Inl e \<Rightarrow> worker_loop env a w (catch_block w i e st)
           | Inr y \<Rightarrow>
               let st1 = st\<lparr>callDurations := callDurations st @ [snd y]\<rparr> in
               if fst x \<noteq> fst y
               then worker_loop env a w
                      (st1\<lparr>fail := Suc (fail st1),
                           errors := errors st1 @
                             [Mismatch i (take 16 (toString_hex (fst x)))
                                (take 16 (toString_hex (fst y)))],
                           history := history st1 @ [CountFail w i]\<rparr>)
               else worker_loop env a w
                      (st1\<lparr>ok := Suc (ok st1), history := history st1 @ [CountOk w i]\<rparr>)))"

text \<open>
  \<open>range(concurrency).map(async ...)\<close> starts the workers one after the other; each
  runs at once up to its first \<open>await\<close>. \<open>t0\<close> is the cell of \<open>rand\<close> when the batch
  starts.
\<close>

definition init :: "batch_args \<Rightarrow> nat \<Rightarrow> state" where
  "init a t0 =
     \<lparr>queue = [0..<iterations a], ok = 0, fail = 0, errors = [], callDurations = [],
      rand_t = t0, invocations = 0, workers = [], history = []\<rparr>"

definition spawn :: "env \<Rightarrow> batch_args \<Rightarrow> state \<Rightarrow> nat \<Rightarrow> state" where
  "spawn env a st w = worker_loop env a w (st\<lparr>workers := workers st @ [Finished]\<rparr>)"

definition start :: "env \<Rightarrow> batch_args \<Rightarrow> nat \<Rightarrow> state" where
  "start env a t0 = foldl (spawn env a) (init a t0) [0..<concurrency a]"

text \<open>
  The event loop. It is not part of the program: a schedule lists, turn by turn, which
  of the suspended workers continues next (the \<open>c\<close>-th of them, counted cyclically), so
  that every order in which the awaited promises can settle is some schedule.
  \<open>Promise.all(workers)\<close> is fulfilled once no worker is suspended; \<open>None\<close> means that
  the schedule ended before that.
\<close>

definition suspended :: "state \<Rightarrow> nat list" where
  "suspended st = filter (\<lambda>w. workers st ! w \<noteq> Finished) [0..<length (workers st)]"

fun run :: "env \<Rightarrow> batch_args \<Rightarrow> nat list \<Rightarrow> state \<Rightarrow> state option" where
  "run env a [] st = (if suspended st = [] then Some st else None)"
| "run env a (c # cs) st =
     (if suspended st = [] then Some st
      else run env a cs (resume env a (suspended st ! (c mod length (suspended st))) st))"

text \<open>
  The result object, without the three fields derived from the wall clock
  (\<open>totalMs\<close>, \<open>iterThroughput\<close>, \<open>callThroughput\<close>).
\<close>

record batch_result =
  res_variant :: variant
  res_concurrency :: nat
  res_iterations :: nat
  res_ok :: nat
  res_fail :: nat
  res_p50 :: number
  res_p90 :: number
  res_p99 :: number
  res_errors :: "err_record list"

definition metrics :: "batch_args \<Rightarrow> state \<Rightarrow> batch_result" where
  "metrics a st =
     (let sorted_arr = sort (callDurations st)
      in \<lparr>res_variant = variant a, res_concurrency = concurrency a,
          res_iterations = iterations a, res_ok = ok st, res_fail = fail st,
          res_p50 = percentile sorted_arr 50, res_p90 = percentile sorted_arr 90,
          res_p99 = percentile sorted_arr 99, res_errors = errors st\<rparr>)"

definition runBatch :: "env \<Rightarrow> batch_args \<Rightarrow> nat \<Rightarrow> nat list \<Rightarrow> batch_result option" where
  "runBatch env a t0 sched = map_option (metrics a) (run env a sched (start env a t0))"

section \<open>Batch runner without metrics\<close>

text \<open>
  The runner of \<open>scrypt-bench.mjs\<close>. Here \<open>runOnce(i)\<close> returns the adapter's promise
  and the worker guards it itself, with a label that ends in \<open>#1\<close> or \<open>#2\<close>; no
  latency is measured. A worker suspended at the second \<open>await\<close> holds \<open>dk1\<close>.
\<close>

datatype worker0 =
    Finished0
  | Await1 nat "js_error + buffer"
  | Await2 nat buffer "js_error + buffer"

record state0 =
  queue0 :: "nat list"
  ok0 :: nat
  fail0 :: nat
  errors0 :: "err_record list"
  rand_t0 :: nat
  invocations0 :: nat
  workers0 :: "worker0 list"
  history0 :: "event list"

definition runOnce0 ::
  "env \<Rightarrow> batch_args \<Rightarrow> nat \<Rightarrow> nat \<Rightarrow> state0 \<Rightarrow> buffer promise \<times> state0" where
  "runOnce0 env a w i st =
     (let ((pwd, salt), t) = mkInput (mode env) i (rand_t0 st);
          promise = variants (variant a) (scrypt env (invocations0 st)) pwd salt (keyLen a) (opts a)
      in (promise,
          st\<lparr>rand_t0 := t, invocations0 := Suc (invocations0 st),
             history0 := history0 st @ [Invoke w i (invocations0 st) promise]\<rparr>))"

definition worker_loop0 :: "env \<Rightarrow> batch_args \<Rightarrow> nat \<Rightarrow> state0 \<Rightarrow> state0" where
  "worker_loop0 env a w st =
     (if length (queue0 st) = 0 then st\<lparr>workers0 := (workers0 st)[w := Finished0]\<rparr>
      else let i = last (queue0 st);
               (promise, st1) = runOnce0 env a w i
                  (st\<lparr>queue0 := butlast (queue0 st), history0 := history0 st @ [Pop w i]\<rparr>);
               dk1 = withTimeout promise 60000
                  (variant_name (variant a) @ '' i='' @ string_of_nat i @ '' #1'')
           in st1\<lparr>workers0 := (workers0 st1)[w := Await1 i dk1]\<rparr>)"

definition catch_block0 :: "nat \<Rightarrow> nat \<Rightarrow> js_error \<Rightarrow> state0 \<Rightarrow> state0" where
  "catch_block0 w i e st =
     st\<lparr>fail0 := Suc (fail0 st), errors0 := errors0 st @ [Error i (message e) (code e)],
        history0 := history0 st @ [CountFail w i]\<rparr>"

definition resume0 :: "env \<Rightarrow> batch_args \<Rightarrow> nat \<Rightarrow> state0 \<Rightarrow> state0" where
  "resume0 env a w st =
     (case workers0 st ! w of
        Finished0 \<Rightarrow> st
      | Await1 i r \<Rightarrow>
          (case r of
             Inl e \<Rightarrow> worker_loop0 env a w (catch_block0 w i e st)
           | Inr dk1 \<Rightarrow>
               if mode env = ''sequential''
               then let (promise, st1) = runOnce0 env a w i st;
                        dk2 = withTimeout promise 60000
                           (variant_name (variant a) @ '' i='' @ string_of_nat i @ '' #2'')
                    in st1\<lparr>workers0 := (workers0 st1)[w := Await2 i dk1 dk2]\<rparr>
               else worker_loop0 env a w
                      (st\<lparr>ok0 := Suc (ok0 st), history0 := history0 st @ [CountOk w i]\<rparr>))
      | Await2 i dk1 r \<Rightarrow>
          (case r of
             Inl e \<Rightarrow> worker_loop0 env a w (catch_block0 w i e st)
           | Inr dk2 \<Rightarrow>
               if dk1 \<noteq> dk2
               then worker_loop0 env a w
                      (st\<lparr>fail0 := Suc (fail0 st),
                          errors0 := errors0 st @
                            [Mismatch i (take 16 (toString_hex dk1)) (take 16 (toString_hex dk2))],
                          history0 := history0 st @ [CountFail w i]\<rparr>)
               else worker_loop0 env a w
                      (st\<lparr>ok0 := Suc (ok0 st), history0 := history0 st @ [CountOk w i]\<rparr>)))"

definition init0 :: "batch_args \<Rightarrow> nat \<Rightarrow> state0" where
  "init0 a t0 =
     \<lparr>queue0 = [0..<iterations a], ok0 = 0, fail0 = 0, errors0 = [], rand_t0 = t0,
      invocations0 = 0, workers0 = [], history0 = []\<rparr>"

definition spawn0 :: "env \<Rightarrow> batch_args \<Rightarrow> state0 \<Rightarrow> nat \<Rightarrow> state0" where
  "spawn0 env a st w = worker_loop0 env a w (st\<lparr>workers0 := workers0 st @ [Finished0]\<rparr>)"

definition start0 :: "env \<Rightarrow> batch_args \<Rightarrow> nat \<Rightarrow> state0" where
  "start0 env a t0 = foldl (spawn0 env a) (init0 a t0) [0..<concurrency a]"

definition suspended0 :: "state0 \<Rightarrow> nat list" where
  "suspended0 st = filter (\<lambda>w. workers0 st ! w \<noteq> Finished0) [0..<length (workers0 st)]"

fun run0 :: "env \<Rightarrow> batch_args \<Rightarrow> nat list \<Rightarrow> state0 \<Rightarrow> state0 option" where
  "run0 env a [] st = (if suspended0 st = [] then Some st else None)"
| "run0 env a (c # cs) st =
     (if suspended0 st = [] then Some st
      else run0 env a cs (resume0 env a (suspended0 st ! (c mod length (suspended0 st))) st))"

text \<open>The result object, without the wall-clock field \<open>ms\<close>.\<close>

record batch_result0 =
  res0_variant :: variant
  res0_concurrency :: nat
  res0_iterations :: nat
  res0_ok :: nat
  res0_fail :: nat
  res0_errors :: "err_record list"

definition result0 :: "batch_args \<Rightarrow> state0 \<Rightarrow> batch_result0" where
  "result0 a st =
     \<lparr>res0_variant = variant a, res0_concurrency = concurrency a,
      res0_iterations = iterations a, res0_ok = ok0 st, res0_fail = fail0 st,
      res0_errors = errors0 st\<rparr>"

definition runBatch0 :: "env \<Rightarrow> batch_args \<Rightarrow> nat \<Rightarrow> nat list \<Rightarrow> batch_result0 option" where
  "runBatch0 env a t0 sched = map_option (result0 a) (run0 env a sched (start0 env a t0))"

text \<open>The \<open>type\<close> and \<open>i\<close> fields of a failure record.\<close>

definition record_type :: "err_record \<Rightarrow> string" where
  "record_type e = (case e of Mismatch i x y \<Rightarrow> ''mismatch'' | Error i m c \<Rightarrow> ''error'')"

definition record_index :: "err_record \<Rightarrow> nat" where
  "record_index e = (case e of Mismatch i x y \<Rightarrow> i | Error i m c \<Rightarrow> i)"

section \<open>History, invariants and the relation between the two runners\<close>

text \<open>
  Projections of the history: the indices popped, the indices counted as \<open>ok\<close> and as
  \<open>fail\<close>, in the order in which it happened.
\<close>

fun popped :: "event list \<Rightarrow> nat list" where
  "popped [] = []"
| "popped (Pop w i # es) = i # popped es"
| "popped (e # es) = popped es"

fun oks :: "event list \<Rightarrow> nat list" where
  "oks [] = []"
| "oks (CountOk w i # es) = i # oks es"
| "oks (e # es) = oks es"

fun fails :: "event list \<Rightarrow> nat list" where
  "fails [] = []"
| "fails (CountFail w i # es) = i # fails es"
| "fails (e # es) = fails es"

text \<open>
  An invocation completed when its promise was fulfilled (not rejected) within the
  deadline of 60000 ms; \<open>completed_delays\<close> lists the settle delays of the completed
  invocations of a history.
\<close>

definition completed :: "'a promise \<Rightarrow> bool" where
  "completed q = (case q of Settles d r \<Rightarrow> (case r of Inl e \<Rightarrow> False | Inr k \<Rightarrow> d \<le> 60000) | Never \<Rightarrow> False)"

fun completed_delays :: "event list \<Rightarrow> rat list" where
  "completed_delays [] = []"
| "completed_delays (Invoke w i n q # es) =
     (if completed q then settle_delay q # completed_delays es else completed_delays es)"
| "completed_delays (e # es) = completed_delays es"

text \<open>
  What a suspended worker holds: its index, and the latency sample that it will
  append when the awaited call turns out to have completed.
\<close>

definition holding :: "worker \<Rightarrow> nat list" where
  "holding k = (case k of Finished \<Rightarrow> [] | AwaitA i r \<Rightarrow> [i] | AwaitB i x r \<Rightarrow> [i])"

definition awaited_sample :: "worker \<Rightarrow> rat list" where
  "awaited_sample k =
     (case k of Finished \<Rightarrow> []
      | AwaitA i r \<Rightarrow> (case r of Inl e \<Rightarrow> [] | Inr x \<Rightarrow> [snd x])
      | AwaitB i x r \<Rightarrow> (case r of Inl e \<Rightarrow> [] | Inr y \<Rightarrow> [snd y]))"

definition holding_sum :: "worker list \<Rightarrow> nat multiset" where
  "holding_sum ws = sum_list (map (\<lambda>k. mset (holding k)) ws)"

definition awaited_sum :: "worker list \<Rightarrow> rat multiset" where
  "awaited_sum ws = sum_list (map (\<lambda>k. mset (awaited_sample k)) ws)"

text \<open>How \<open>runOnce\<close>'s outcome belongs to the promise of the invocation it logged.\<close>

definition sample_ok :: "js_error + buffer \<times> rat \<Rightarrow> buffer promise \<Rightarrow> bool" where
  "sample_ok r q = (case r of Inl e \<Rightarrow> \<not> completed q | Inr x \<Rightarrow> completed q \<and> snd x = settle_delay q)"

text \<open>
  The invariant of a batch between two turns: every index is in the queue or was
  popped; a popped index is held by a worker or was counted; the counters are the
  numbers of counting events; the samples collected and still awaited are those of the
  completed invocations; and a worker only finishes on an empty queue. During a
  turn of worker \<open>w\<close>, after it has counted its index, the same holds with \<open>w\<close> read as
  holding nothing.
\<close>

definition counters_inv :: "batch_args \<Rightarrow> worker list \<Rightarrow> state \<Rightarrow> bool" where
  "counters_inv a ws st =
     (mset (queue st) + mset (popped (history st)) = mset [0..<iterations a] \<and>
      mset (oks (history st)) + mset (fails (history st)) + holding_sum ws =
        mset (popped (history st)) \<and>
      ok st = length (oks (history st)) \<and>
      fail st = length (fails (history st)) \<and>
      mset (callDurations st) + awaited_sum ws = mset (completed_delays (history st)))"

definition others_finished_ok :: "nat \<Rightarrow> state \<Rightarrow> bool" where
  "others_finished_ok w st =
     (\<forall>v < length (workers st). v \<noteq> w \<longrightarrow> workers st ! v = Finished \<longrightarrow> queue st = [])"

definition batch_inv :: "batch_args \<Rightarrow> state \<Rightarrow> bool" where
  "batch_inv a st =
     (counters_inv a (workers st) st \<and>
      (\<forall>v < length (workers st). workers st ! v = Finished \<longrightarrow> queue st = []))"

definition turn_inv :: "batch_args \<Rightarrow> nat \<Rightarrow> state \<Rightarrow> bool" where
  "turn_inv a w st =
     (counters_inv a ((workers st)[w := Finished]) st \<and> others_finished_ok w st)"

text \<open>
  A bound on the turns left: two per queued index and per worker at its first
  \<open>await\<close>, one per worker at its second.
\<close>

definition weight :: "worker \<Rightarrow> nat" where
  "weight k = (case k of Finished \<Rightarrow> 0 | AwaitA i r \<Rightarrow> 2 | AwaitB i x r \<Rightarrow> 1)"

definition work :: "state \<Rightarrow> nat" where
  "work st = 2 * length (queue st) + sum_list (map weight (workers st))"

text \<open>
  The two runners are related when they agree on everything but the latencies and the
  message of a failure record (the timeout labels differ).
\<close>

definition outcome_rel :: "js_error + buffer \<Rightarrow> js_error + buffer \<times> rat \<Rightarrow> bool" where
  "outcome_rel r0 r =
     (case r0 of
        Inl e0 \<Rightarrow> (case r of Inl e \<Rightarrow> code e0 = code e | Inr x \<Rightarrow> False)
      | Inr k \<Rightarrow> (case r of Inl e \<Rightarrow> False | Inr x \<Rightarrow> k = fst x))"

fun worker_rel :: "worker0 \<Rightarrow> worker \<Rightarrow> bool" where
  "worker_rel Finished0 Finished = True"
| "worker_rel (Await1 i r0) (AwaitA j r) = (i = j \<and> outcome_rel r0 r)"
| "worker_rel (Await2 i k r0) (AwaitB j x r) = (i = j \<and> k = fst x \<and> outcome_rel r0 r)"
| "worker_rel k0 k = False"

fun record_rel :: "err_record \<Rightarrow> err_record \<Rightarrow> bool" where
  "record_rel (Mismatch i x y) (Mismatch j x' y') = (i = j \<and> x = x' \<and> y = y')"
| "record_rel (Error i m c) (Error j m' c') = (i = j \<and> c = c')"
| "record_rel e0 e = False"

definition state_rel :: "state0 \<Rightarrow> state \<Rightarrow> bool" where
  "state_rel s0 s =
     (queue0 s0 = queue s \<and> ok0 s0 = ok s \<and> fail0 s0 = fail s \<and> rand_t0 s0 = rand_t s \<and>
      invocations0 s0 = invocations s \<and> history0 s0 = history s \<and>
      list_all2 worker_rel (workers0 s0) (workers s) \<and>
      list_all2 record_rel (errors0 s0) (errors s))"

text \<open>
  What the history says about one index: the promises of its invocations, in order,
  and the failure records that carry it. \<open>guarded a i q\<close> is how \<open>runOnce(i)\<close> settles
  when the adapter returned the promise \<open>q\<close>. \<open>verdict\<close> is what the worker makes of an
  index from the promises of its invocations: whether it counts it as \<open>ok\<close>, and the
  failure records it appends.
\<close>

fun calls_of :: "nat \<Rightarrow> event list \<Rightarrow> buffer promise list" where
  "calls_of i [] = []"
| "calls_of i (Invoke w j n q # es) = (if j = i then q # calls_of i es else calls_of i es)"
| "calls_of i (e # es) = calls_of i es"

definition errors_of :: "nat \<Rightarrow> err_record list \<Rightarrow> err_record list" where
  "errors_of i es = filter (\<lambda>e. record_index e = i) es"

definition guarded :: "batch_args \<Rightarrow> nat \<Rightarrow> buffer promise \<Rightarrow> js_error + buffer \<times> rat" where
  "guarded a i q =
     (case withTimeout q 60000 (variant_name (variant a) @ '' i='' @ string_of_nat i) of
        Inl e \<Rightarrow> Inl e
      | Inr k \<Rightarrow> Inr (k, settle_delay q))"

fun verdict :: "env \<Rightarrow> batch_args \<Rightarrow> nat \<Rightarrow> buffer promise list \<Rightarrow> (bool \<times> err_record list) option" where
  "verdict env a i [q1] =
     (case guarded a i q1 of
        Inl e \<Rightarrow> Some (False, [Error i (message e) (code e)])
      | Inr x \<Rightarrow> if mode env = ''sequential'' then None else Some (True, []))"
| "verdict env a i [q1, q2] =
     (if mode env = ''sequential''
      then (case guarded a i q1 of
              Inl e \<Rightarrow> None
            | Inr x \<Rightarrow>
                (case guarded a i q2 of
                   Inl e \<Rightarrow> Some (False, [Error i (message e) (code e)])
                 | Inr y \<Rightarrow>
                     if fst x \<noteq> fst y
                     then Some (False, [Mismatch i (take 16 (toString_hex (fst x)))
                                          (take 16 (toString_hex (fst y)))])
                     else Some (True, [])))
      else None)"
| "verdict env a i qs = None"

text \<open>
  The invariant about single indices: a suspended worker's index has exactly the
  invocations the worker is waiting for and no failure record yet; an index that was
  never popped has neither invocations nor records; and a counted index was counted
  as its \<open>verdict\<close> says.
\<close>

definition held_ok :: "env \<Rightarrow> batch_args \<Rightarrow> event list \<Rightarrow> err_record list \<Rightarrow> worker \<Rightarrow> bool" where
  "held_ok env a h es k =
     (case k of
        Finished \<Rightarrow> True
      | AwaitA i r \<Rightarrow> (\<exists>q. calls_of i h = [q] \<and> r = guarded a i q) \<and> errors_of i es = []
      | AwaitB i x r \<Rightarrow>
          mode env = ''sequential'' \<and>
          (\<exists>q1 q2. calls_of i h = [q1, q2] \<and> guarded a i q1 = Inr x \<and> r = guarded a i q2) \<and>
          errors_of i es = [])"

definition tasks_core :: "env \<Rightarrow> batch_args \<Rightarrow> state \<Rightarrow> bool" where
  "tasks_core env a st =
     ((\<forall>i. i \<notin> set (popped (history st)) \<longrightarrow>
         calls_of i (history st) = [] \<and> errors_of i (errors st) = []) \<and>
      (\<forall>i. i \<in> set (oks (history st)) \<union> set (fails (history st)) \<longrightarrow>
         verdict env a i (calls_of i (history st)) =
           Some (i \<in> set (oks (history st)), errors_of i (errors st))))"

definition tasks_inv :: "env \<Rightarrow> batch_args \<Rightarrow> state \<Rightarrow> bool" where
  "tasks_inv env a st =
     ((\<forall>v < length (workers st). held_ok env a (history st) (errors st) (workers st ! v)) \<and>
      tasks_core env a st)"

definition tasks_turn :: "env \<Rightarrow> batch_args \<Rightarrow> nat \<Rightarrow> state \<Rightarrow> bool" where
  "tasks_turn env a w st =
     ((\<forall>v < length (workers st). v \<noteq> w \<longrightarrow>
         held_ok env a (history st) (errors st) (workers st ! v)) \<and>
      tasks_core env a st)"

section \<open>A worked example\<close>

text \<open>
  Four indices and two workers in sequential mode. The primitive rejects the input of
  index 2, answers index 1 with a different key from its second call on, never
  settles for index 0, and derives a key from its arguments otherwise.
  \<open>example_turns ws\<close> is the state after the workers \<open>ws\<close> have taken their turns.
\<close>

definition example_env :: env where
  "example_env =
     \<lparr>mode = ''sequential'',
      scrypt = (\<lambda>n pwd salt keyLen opts.
        if pwd = Buffer_from ''pwd-2''
        then Settles 1 (Inl (JsError (Some ''boom'') (Some ''ERR_X'')))
        else if pwd = Buffer_from ''pwd-1''
        then Settles 5 (Inr (if n = 2 then [1, 2, 3, 4] else [9, 9, 9, 9]))
        else if pwd = Buffer_from ''pwd-0'' then Never
        else Settles 7 (Inr (take keyLen (pwd @ salt))))\<rparr>"

definition example_args :: batch_args where
  "example_args =
     \<lparr>variant = callback, concurrency = 2, iterations = 4, keyLen = 4,
      opts = (16384, 8, 1, 33554432)\<rparr>"

definition example_turns :: "nat list \<Rightarrow> state" where
  "example_turns ws =
     foldl (\<lambda>st w. resume example_env example_args w st) (start example_env example_args 1337) ws"

definition example_turns0 :: "nat list \<Rightarrow> state0" where
  "example_turns0 ws =
     foldl (\<lambda>st w. resume0 example_env example_args w st) (start0 example_env example_args 1337) ws"

section \<open>Properties of the metrics\<close>

subsection \<open>Evaluating the rounding\<close>

text \<open>
  Rules that compute the bit length of a numeral and the floor and ceiling of a
  quotient of numerals, so that the rounding of a given number evaluates.
\<close>

lemma bitlen_numeral:
  "bitlen 1 = 1"
  "bitlen (numeral (num.Bit0 k)) = bitlen (numeral k) + 1"
  "bitlen (numeral (num.Bit1 k)) = bitlen (numeral k) + 1"
proof -
  show "bitlen 1 = 1" by (subst compute_bitlen) simp
  have "numeral (num.Bit0 k) div (2 :: int) = numeral k" by simp
  then show "bitlen (numeral (num.Bit0 k)) = bitlen (numeral k) + 1"
    by (subst compute_bitlen) simp
  have "numeral (num.Bit1 k) div (2 :: int) = numeral k" by simp
  then show "bitlen (numeral (num.Bit1 k)) = bitlen (numeral k) + 1"
    by (subst compute_bitlen) simp
qed

lemma floor_rat_numeral:
  "\<lfloor>(numeral a / numeral b :: rat)\<rfloor> = numeral a div numeral b"
  using floor_divide_of_int_eq [of "numeral a" "numeral b", where ?'a = rat] by simp

lemma ceiling_rat_numeral:
  "\<lceil>(numeral a / numeral b :: rat)\<rceil> = - (- numeral a div numeral b)"
  using ceiling_divide_eq_div [of "numeral a" "numeral b", where ?'a = rat] by simp

lemmas binary64_eval = round_binary64_def binade_def pow2_def round_half_even_def
  bitlen_numeral Let_def floor_rat_numeral ceiling_rat_numeral

subsection \<open>Rounding near an integer\<close>

text \<open>
  Rounding to an integer moves a number by at most one half and never across an
  integer; a double between \<open>1/2\<close> and \<open>2^32\<close> is a multiple of a power of two that is
  at most \<open>2^-21\<close>.
\<close>

lemma round_half_even_near: "\<bar>of_int (round_half_even y) - y\<bar> \<le> 1 / 2"
proof -
  have "of_int \<lfloor>y\<rfloor> \<le> y" "y < of_int \<lfloor>y\<rfloor> + 1" by linarith+
  then show ?thesis by (auto simp: round_half_even_def Let_def)
qed

lemma round_half_even_le:
  assumes "y \<le> of_int j"
  shows "round_half_even y \<le> j"
proof -
  have f: "of_int \<lfloor>y\<rfloor> \<le> y" "y < of_int \<lfloor>y\<rfloor> + 1" by linarith+
  from assms have le: "\<lfloor>y\<rfloor> \<le> j" by (simp add: floor_le_iff) 
  show ?thesis
  proof (cases "y = of_int \<lfloor>y\<rfloor>")
    case True
    then have "y - of_int \<lfloor>y\<rfloor> = 0" by simp
    then show ?thesis using le by (simp add: round_half_even_def Let_def)
  next
    case False
    with f assms have "of_int \<lfloor>y\<rfloor> < (of_int j :: rat)" by linarith
    then have "\<lfloor>y\<rfloor> < j" by simp
    then show ?thesis by (simp add: round_half_even_def Let_def)
  qed
qed

lemma round_half_even_below_half:
  assumes "y < of_int j + 1 / 2"
  shows "round_half_even y \<le> j"
proof -
  have f: "of_int \<lfloor>y\<rfloor> \<le> y" "y < of_int \<lfloor>y\<rfloor> + 1" by linarith+
  with assms have "y < of_int (j + 1)" by simp
  then have "\<lfloor>y\<rfloor> < j + 1" by (simp only: floor_less_iff)
  then have le: "\<lfloor>y\<rfloor> \<le> j" by simp
  show ?thesis
  proof (cases "\<lfloor>y\<rfloor> = j")
    case True
    with assms have "y - of_int \<lfloor>y\<rfloor> < 1 / 2" by simp
    then show ?thesis using True by (simp add: round_half_even_def Let_def)
  next
    case False
    with le have "\<lfloor>y\<rfloor> + 1 \<le> j" by simp
    then show ?thesis by (simp add: round_half_even_def Let_def)
  qed
qed

lemma binade_bounds:
  assumes "1 / 2 \<le> x" "x < 2 ^ 32"
  shows "\<exists>n. n \<le> 32 \<and> binade x = int n - 1 \<and> 2 ^ n \<le> 2 * x \<and> x < 2 ^ n"
proof (cases "1 \<le> x")
  case True
  then have pos: "0 < \<lfloor>x\<rfloor>" by simp
  let ?b = "bitlen \<lfloor>x\<rfloor>"
  from bitlen_bounds [OF pos] have lo: "2 ^ nat (?b - 1) \<le> \<lfloor>x\<rfloor>" and hi: "\<lfloor>x\<rfloor> < 2 ^ nat ?b"
    by simp_all
  from pos have b1: "1 \<le> ?b" using bitlen_eq_zero_iff [of "\<lfloor>x\<rfloor>"] bitlen_nonneg [of "\<lfloor>x\<rfloor>"] by linarith
  have fl: "of_int \<lfloor>x\<rfloor> \<le> x" "x < of_int \<lfloor>x\<rfloor> + 1" by linarith+
  from hi have "x < of_int (2 ^ nat ?b)" by (simp only: floor_less_iff)
  then have xhi: "x < 2 ^ nat ?b" by simp
  from lo have "of_int (2 ^ nat (?b - 1)) \<le> x" by (simp only: le_floor_iff)
  then have "2 ^ nat (?b - 1) \<le> x" by simp
  then have "2 * 2 ^ nat (?b - 1) \<le> 2 * x" by simp
  moreover from b1 have "nat ?b = Suc (nat (?b - 1))" by simp
  ultimately have xlo: "2 ^ nat ?b \<le> 2 * x" by simp
  have "nat ?b \<le> 32"
  proof (rule ccontr)
    assume "\<not> nat ?b \<le> 32"
    then have "33 \<le> nat ?b" by simp
    then have "(2 :: rat) ^ 33 \<le> 2 ^ nat ?b" by (rule power_increasing) simp
    with xlo assms show False by simp
  qed
  moreover from True b1 have "binade x = int (nat ?b) - 1" by (simp add: binade_def)
  ultimately show ?thesis using xlo xhi by blast
next
  case False
  with assms have "0 < x" "x < 1" by simp_all
  then have "1 < 1 / x" by simp
  moreover from assms \<open>0 < x\<close> have "1 / x \<le> 2" by (simp add: field_simps)
  ultimately have "\<lceil>1 / x\<rceil> = 2" by (simp add: ceiling_eq_iff)
  with False have "binade x = int 0 - 1" by (simp add: binade_def bitlen_numeral)
  with assms \<open>x < 1\<close> show ?thesis by (intro exI [of _ 0]) simp
qed

lemma round_binary64_form:
  assumes "1 / 2 \<le> x" "x < 2 ^ 32"
  shows "\<exists>s. 2 ^ 21 \<le> (2 :: rat) ^ s \<and> 2 ^ 52 \<le> x * 2 ^ s \<and> x * 2 ^ s < 2 ^ 53 \<and>
           round_binary64 x = Finite (of_int (round_half_even (x * 2 ^ s)) / 2 ^ s)"
proof -
  from binade_bounds [OF assms] obtain n where n: "n \<le> 32" "binade x = int n - 1"
    "2 ^ n \<le> 2 * x" "x < 2 ^ n" by blast
  let ?s = "53 - n"
  have split: "(2 :: rat) ^ 53 = 2 ^ n * 2 ^ ?s"
    using n(1) by (simp flip: power_add)
  have pos: "(0 :: rat) < 2 ^ ?s" by simp
  have s21: "(2 :: rat) ^ 21 \<le> 2 ^ ?s" using n(1) by (intro power_increasing) simp_all
  from n(3) have "2 ^ n * 2 ^ ?s \<le> 2 * x * 2 ^ ?s" by (simp only: mult_le_cancel_right_pos [OF pos])
  with split have lo: "2 ^ 52 \<le> x * 2 ^ ?s" by simp
  from n(4) have "x * 2 ^ ?s < 2 ^ n * 2 ^ ?s" by (simp only: mult_less_cancel_right_pos [OF pos])
  with split have hi: "x * 2 ^ ?s < 2 ^ 53" by simp
  from assms have x0: "x \<noteq> 0" "\<bar>x\<bar> = x" by simp_all
  have u: "pow2 (max (binade x) (- 1022) - 52) = 1 / 2 ^ ?s"
  proof -
    from n(1,2) have "max (binade x) (- 1022) - 52 = - int ?s" by simp
    then have "pow2 (max (binade x) (- 1022) - 52) = pow2 (- int ?s)" by (simp only:)
    also have "\<dots> = 1 / 2 ^ ?s" using n(1) by (simp add: pow2_def)
    finally show ?thesis .
  qed
  let ?y = "of_int (round_half_even (x * 2 ^ ?s)) / (2 :: rat) ^ ?s"
  let ?R = "of_int (round_half_even (x * 2 ^ ?s)) :: rat"
  from round_half_even_near [of "x * 2 ^ ?s"] hi have Rhi: "?R \<le> 2 ^ 53 + 1 / 2" by linarith
  have "(1 :: rat) \<le> 2 ^ 52" by simp
  with round_half_even_near [of "x * 2 ^ ?s"] lo have R0: "0 \<le> ?R" by linarith
  have p1: "(1 :: rat) \<le> 2 ^ ?s" by simp
  from mult_left_mono [OF p1 R0] have "?R \<le> ?R * 2 ^ ?s" by simp
  then have "?y \<le> ?R" by (simp add: pos_divide_le_eq)
  with Rhi have yhi: "?y < 2 ^ 1024" by simp
  from R0 have ylo: "0 \<le> ?y" by simp
  have "round_binary64 x = Finite ?y"
    using x0 yhi ylo by (simp add: round_binary64_def u Let_def)
  with s21 lo hi show ?thesis by blast
qed

lemma ceiling_round_binary64:
  assumes x: "1 / 2 \<le> x" "x < 2 ^ 32"
    and A: "of_int k - 1 + 1 / 2 ^ 21 < x"
    and B: "x \<le> of_int k \<or> (x - of_int k) * 2 ^ 54 \<le> x"
  shows "\<exists>y. round_binary64 x = Finite y \<and> \<lceil>y\<rceil> = k"
proof -
  from round_binary64_form [OF x] obtain s where s: "2 ^ 21 \<le> (2 :: rat) ^ s"
    "2 ^ 52 \<le> x * 2 ^ s" "x * 2 ^ s < 2 ^ 53"
    "round_binary64 x = Finite (of_int (round_half_even (x * 2 ^ s)) / 2 ^ s)" by blast
  let ?P = "(2 :: rat) ^ s"
  let ?R = "of_int (round_half_even (x * ?P)) :: rat"
  have pos: "0 < ?P" by simp
  note near = round_half_even_near [of "x * ?P"]
  have lower: "(of_int k - 1) * ?P < ?R"
  proof -
    from A have "(of_int k - 1 + 1 / 2 ^ 21) * ?P < x * ?P"
      by (simp only: mult_less_cancel_right_pos [OF pos])
    then have "(of_int k - 1) * ?P + ?P / 2 ^ 21 < x * ?P" by (simp add: algebra_simps)
    moreover from s(1) have "1 \<le> ?P / 2 ^ 21" by simp
    ultimately show ?thesis using near by linarith
  qed
  have upper: "?R \<le> of_int k * ?P"
  proof -
    have kP: "of_int k * ?P = of_int (k * 2 ^ s)" by simp
    from B have "round_half_even (x * ?P) \<le> k * 2 ^ s"
    proof
      assume "x \<le> of_int k"
      then have "x * ?P \<le> of_int k * ?P" by (simp only: mult_le_cancel_right_pos [OF pos])
      then have "x * ?P \<le> of_int (k * 2 ^ s)" by (simp only: kP)
      then show ?thesis by (rule round_half_even_le)
    next
      assume "(x - of_int k) * 2 ^ 54 \<le> x"
      then have "(x - of_int k) * 2 ^ 54 * ?P \<le> x * ?P"
        by (simp only: mult_le_cancel_right_pos [OF pos])
      moreover have "(x - of_int k) * 2 ^ 54 * ?P = (x - of_int k) * ?P * 2 ^ 54"
        by (simp only: mult_ac)
      ultimately have "(x - of_int k) * ?P * 2 ^ 54 \<le> x * ?P" by (simp only:)
      from this s(3) have "(x - of_int k) * ?P * 2 ^ 54 < 2 ^ 53" by (rule order_le_less_trans)
      then have "(x - of_int k) * ?P < 1 / 2" by simp
      moreover have "(x - of_int k) * ?P = x * ?P - of_int k * ?P" by (simp only: left_diff_distrib)
      ultimately have "x * ?P < of_int k * ?P + 1 / 2" by linarith
      then have "x * ?P < of_int (k * 2 ^ s) + 1 / 2" by (simp only: kP)
      then show ?thesis by (rule round_half_even_below_half)
    qed
    then have "?R \<le> of_int (k * 2 ^ s)" by (simp only: of_int_le_iff)
    then show ?thesis by (simp only: kP)
  qed
  from lower have "of_int k - 1 < ?R / ?P" by (simp add: pos_less_divide_eq)
  moreover from upper have "?R / ?P \<le> of_int k" by (simp add: pos_divide_le_eq)
  ultimately have "\<lceil>?R / ?P\<rceil> = k" by (intro ceiling_unique) simp_all
  with s(4) show ?thesis by blast
qed

lemma scaled_rank_ceiling:
  assumes q: "round_binary64 (of_nat c / 100) = Finite q" "1 / 2 \<le> q" "q \<le> 1"
      "\<bar>q - of_nat c / 100\<bar> \<le> 1 / 2 ^ 55"
    and N: "0 < N" "N < 2 ^ 32"
  shows "\<exists>y. scaled_rank (of_nat c) N = Finite y \<and> \<lceil>y\<rceil> = \<lceil>of_nat c / 100 * of_nat N :: rat\<rceil>"
proof -
  define n :: rat where "n = of_nat N"
  define t :: rat where "t = of_nat c / 100 * n"
  define x where "x = q * n"
  define k where "k = \<lceil>t\<rceil>"
  define m where "m = int (c * N)"
  from N have n1: "1 \<le> n" by (simp add: n_def)
  from N have "n < of_nat (2 ^ 32)" unfolding n_def by (simp only: of_nat_less_iff)
  then have n32: "n < 2 ^ 32" by simp
  from q(2) n1 have "1 / 2 * 1 \<le> q * n" by (intro mult_mono) simp_all
  then have x1: "1 / 2 \<le> x" by (simp add: x_def)
  from q(3) n1 have "q * n \<le> 1 * n" by (intro mult_right_mono) simp_all
  with n32 have x2: "x < 2 ^ 32" by (simp add: x_def)
  have "x - t = (q - of_nat c / 100) * n" unfolding x_def t_def by (simp only: left_diff_distrib)
  moreover from n1 have "\<bar>n\<bar> = n" by simp
  ultimately have "\<bar>x - t\<bar> = \<bar>q - of_nat c / 100\<bar> * n" by (simp only: abs_mult)
  also from q(4) n1 have "\<dots> \<le> 1 / 2 ^ 55 * n" by (intro mult_right_mono) simp_all
  finally have err: "\<bar>x - t\<bar> \<le> n / 2 ^ 55" by simp
  from n32 have "n / 2 ^ 55 < 1 / 2 ^ 23" by simp
  with err have err': "\<bar>x - t\<bar> < 1 / 2 ^ 23" by linarith
  have t100: "of_int m = 100 * t" by (simp add: m_def t_def n_def)
  have kt: "of_int k - 1 < t" "t \<le> of_int k" unfolding k_def by linarith+
  have c1: "(of_int (100 * (k - 1)) :: rat) = 100 * (of_int k - 1)"
    and c2: "(of_int (100 * (k - 1) + 1) :: rat) = 100 * (of_int k - 1) + 1"
    and c3: "(of_int (100 * k) :: rat) = 100 * of_int k"
    and c4: "(of_int (100 * k - 1) :: rat) = 100 * of_int k - 1"
    by simp_all
  from kt(1) t100 have "100 * (of_int k - 1) < (of_int m :: rat)" by simp
  with c1 have "of_int (100 * (k - 1)) < (of_int m :: rat)" by (simp only:)
  then have "100 * (k - 1) < m" by (simp only: of_int_less_iff)
  then have "100 * (k - 1) + 1 \<le> m" by simp
  then have "(of_int (100 * (k - 1) + 1) :: rat) \<le> of_int m" by (simp only: of_int_le_iff)
  then have "100 * (of_int k - 1) + 1 \<le> (of_int m :: rat)" by (simp only: c2)
  with t100 have grid_lo: "of_int k - 1 + 1 / 100 \<le> t" by simp
  have A: "of_int k - 1 + 1 / 2 ^ 21 < x"
  proof -
    have "(1 :: rat) / 2 ^ 21 + 1 / 2 ^ 23 < 1 / 100" by simp
    with grid_lo err' show ?thesis by linarith
  qed
  have B: "x \<le> of_int k \<or> (x - of_int k) * 2 ^ 54 \<le> x"
  proof (cases "m = 100 * k")
    case True
    then have "(of_int m :: rat) = of_int (100 * k)" by (simp only:)
    then have "(of_int m :: rat) = 100 * of_int k" by (simp only: c3)
    with t100 have "t = of_int k" by simp
    with err have "x - of_int k \<le> n / 2 ^ 55" by linarith
    then have "(x - of_int k) * 2 ^ 54 \<le> n / 2 ^ 55 * 2 ^ 54" by (intro mult_right_mono) simp_all
    also have "\<dots> = 1 / 2 * n" by simp
    also from q(2) n1 have "\<dots> \<le> q * n" by (intro mult_right_mono) simp_all
    finally show ?thesis by (simp add: x_def)
  next
    case False
    from kt(2) t100 have "(of_int m :: rat) \<le> 100 * of_int k" by simp
    then have "(of_int m :: rat) \<le> of_int (100 * k)" by (simp only: c3)
    then have "m \<le> 100 * k" by (simp only: of_int_le_iff)
    with False have "m \<le> 100 * k - 1" by simp
    then have "(of_int m :: rat) \<le> of_int (100 * k - 1)" by (simp only: of_int_le_iff)
    then have "(of_int m :: rat) \<le> 100 * of_int k - 1" by (simp only: c4)
    with t100 have "t \<le> of_int k - 1 / 100" by simp
    moreover have "(1 :: rat) / 2 ^ 23 < 1 / 100" by simp
    ultimately show ?thesis using err' by linarith
  qed
  from ceiling_round_binary64 [OF x1 x2 A B] q(1) show ?thesis
    by (simp add: scaled_rank_def k_def x_def t_def n_def)
qed

subsection \<open>The selected element\<close>

lemma clamp_min_max: "0 \<le> hi \<Longrightarrow> min hi (max 0 x) = clamp x 0 hi"
  by (simp add: clamp_def min_def max_def)

lemma clamp_range: "0 \<le> hi \<Longrightarrow> 0 \<le> clamp x 0 hi \<and> clamp x 0 hi \<le> hi"
  by (simp add: clamp_def)

lemma percentile_finite:
  assumes "xs \<noteq> []" "scaled_rank p (length xs) = Finite y"
  shows "percentile xs p = Num (xs ! nat (clamp (\<lceil>y\<rceil> - 1) 0 (int (length xs) - 1)))"
proof -
  from assms(1) have "0 \<le> int (length xs) - 1" by (cases xs) simp_all
  then show ?thesis using assms by (simp add: percentile_def clamp_min_max)
qed

lemma percentile_member: "xs \<noteq> [] \<Longrightarrow> percentile xs p \<in> Num ` set xs"
proof -
  assume ne: "xs \<noteq> []"
  then have hi: "0 \<le> int (length xs) - 1" by (cases xs) simp_all
  have len: "0 < length xs" using ne by simp
  show ?thesis
  proof (cases "scaled_rank p (length xs)")
    case (Finite y)
    from clamp_range [OF hi, of "\<lceil>y\<rceil> - 1"] len
    have "nat (clamp (\<lceil>y\<rceil> - 1) 0 (int (length xs) - 1)) < length xs" by linarith
    then show ?thesis using percentile_finite [OF ne Finite] by simp
  next
    case PosInf
    from len have "nat (int (length xs) - 1) < length xs" by linarith
    with ne PosInf show ?thesis by (simp add: percentile_def)
  next
    case NegInf
    with ne len show ?thesis by (simp add: percentile_def)
  qed
qed

lemma round_binary64_percent:
  "round_binary64 (50 / 100) = Finite (1 / 2)"
  "round_binary64 (90 / 100) = Finite (8106479329266893 / 2 ^ 53)"
  "round_binary64 (99 / 100) = Finite (8917127262193582 / 2 ^ 53)"
  by (simp_all add: binary64_eval)

lemma percentile_exact_rank:
  assumes p: "p = 50 \<or> p = 90 \<or> p = 99" and xs: "xs \<noteq> []" "length xs < 2 ^ 32"
  shows "percentile xs p = Num (xs ! nat (nearest_rank_index p (length xs)))"
proof -
  from xs have N: "0 < length xs" "length xs < 2 ^ 32" by simp_all
  have "\<exists>y. scaled_rank p (length xs) = Finite y \<and> \<lceil>y\<rceil> = \<lceil>p / 100 * of_nat (length xs)\<rceil>"
    using p
  proof (elim disjE)
    assume "p = 50"
    with scaled_rank_ceiling [of 50 "1 / 2", OF _ _ _ _ N] round_binary64_percent(1)
    show ?thesis by simp
  next
    assume "p = 90"
    with scaled_rank_ceiling [of 90 "8106479329266893 / 2 ^ 53", OF _ _ _ _ N]
      round_binary64_percent(2)
    show ?thesis by simp
  next
    assume "p = 99"
    with scaled_rank_ceiling [of 99 "8917127262193582 / 2 ^ 53", OF _ _ _ _ N]
      round_binary64_percent(3)
    show ?thesis by simp
  qed
  then obtain y where y: "scaled_rank p (length xs) = Finite y"
    "\<lceil>y\<rceil> = \<lceil>p / 100 * of_nat (length xs)\<rceil>" by blast
  from percentile_finite [OF xs(1) y(1)] y(2) show ?thesis
    by (simp add: nearest_rank_index_def)
qed

text \<open>
  C2: \<open>percentile\<close> returns the not-a-number sentinel on the empty list and otherwise
  an element of the list: the one at index \<open>clamp(ceil(y) - 1, 0, N-1)\<close>, where \<open>y\<close> is
  \<open>p/100 * N\<close> as the doubles compute it, the quotient rounded and then the product. For
  the percentiles that the program asks for, 50, 90 and 99, and every length below
  \<open>2^32\<close> this is the index \<open>clamp(ceil(p/100 * N) - 1, 0, N-1)\<close> of exact arithmetic;
  on \<open>[1,...,10]\<close> it gives \<open>p50 = 5\<close>, \<open>p90 = 9\<close> and \<open>p99 = 10\<close>. Sortedness of
  the list plays no part in the selection.
\<close>

theorem percentile_nearest_rank:
  "percentile [] p = NaN \<and>
   percentile (x # xs) p \<in> Num ` set (x # xs) \<and>
   (scaled_rank p (length (x # xs)) = Finite y \<longrightarrow>
      percentile (x # xs) p =
        Num ((x # xs) ! nat (clamp (\<lceil>y\<rceil> - 1) 0 (int (length (x # xs)) - 1)))) \<and>
   ((p = 50 \<or> p = 90 \<or> p = 99) \<and> length (x # xs) < 2 ^ 32 \<longrightarrow>
      percentile (x # xs) p = Num ((x # xs) ! nat (nearest_rank_index p (length (x # xs))))) \<and>
   percentile [1, 2, 3, 4, 5, 6, 7, 8, 9, 10] 50 = Num 5 \<and>
   percentile [1, 2, 3, 4, 5, 6, 7, 8, 9, 10] 90 = Num 9 \<and>
   percentile [1, 2, 3, 4, 5, 6, 7, 8, 9, 10] 99 = Num 10"
proof -
  have a: "percentile [] p = NaN" by (simp add: percentile_def)
  have b: "percentile (x # xs) p \<in> Num ` set (x # xs)" by (rule percentile_member) simp
  have c: "scaled_rank p (length (x # xs)) = Finite y \<longrightarrow>
      percentile (x # xs) p =
        Num ((x # xs) ! nat (clamp (\<lceil>y\<rceil> - 1) 0 (int (length (x # xs)) - 1)))"
    using percentile_finite [of "x # xs" p y] by simp
  have d: "(p = 50 \<or> p = 90 \<or> p = 99) \<and> length (x # xs) < 2 ^ 32 \<longrightarrow>
      percentile (x # xs) p = Num ((x # xs) ! nat (nearest_rank_index p (length (x # xs))))"
    using percentile_exact_rank [of p "x # xs"] by simp
  have e: "percentile [1, 2, 3, 4, 5, 6, 7, 8, 9, 10] 50 = Num 5"
    "percentile [1, 2, 3, 4, 5, 6, 7, 8, 9, 10] 90 = Num 9"
    "percentile [1, 2, 3, 4, 5, 6, 7, 8, 9, 10] 99 = Num 10"
    by (simp_all add: percentile_def scaled_rank_def binary64_eval)
  from a b c d e show ?thesis by blast
qed

theorem percentile_nearest_rank_witness:
  "scaled_rank 50 (length [3, 4, 8 :: rat]) = Finite (3 / 2) \<and>
   percentile [3, 4, 8] 50 = Num ([3, 4, 8] ! nat (clamp (\<lceil>3 / 2 :: rat\<rceil> - 1) 0 (int (length [3, 4, 8 :: rat]) - 1))) \<and>
   clamp (\<lceil>3 / 2 :: rat\<rceil> - 1) 0 (int (length [3, 4, 8 :: rat]) - 1) = 1 \<and>
   length [3, 4, 8 :: rat] < 2 ^ 32 \<and>
   percentile [3, 4, 8] 50 = Num ([3, 4, 8] ! nat (nearest_rank_index 50 (length [3, 4, 8 :: rat]))) \<and>
   nearest_rank_index 50 (length [3, 4, 8 :: rat]) = 1"
proof -
  have s: "scaled_rank 50 (length [3, 4, 8 :: rat]) = Finite (3 / 2)"
    by (simp add: scaled_rank_def binary64_eval)
  have i: "clamp (\<lceil>3 / 2 :: rat\<rceil> - 1) 0 (int (length [3, 4, 8 :: rat]) - 1) = 1"
    "nearest_rank_index 50 (length [3, 4, 8 :: rat]) = 1"
    by (simp_all add: nearest_rank_index_def clamp_def ceiling_rat_numeral)
  from percentile_nearest_rank [of 50 3 "[4, 8]" "3 / 2"] s i show ?thesis by simp
qed

text \<open>
  With other percentiles the rounding shows. For 25 samples and \<open>p = 28\<close> the exact
  product is 7 and selects the seventh sample; the doubles give \<open>7 + 2^-50\<close>, whose
  ceiling is 8, and \<open>percentile\<close> returns the eighth.
\<close>

theorem percentile_28_of_25:
  "scaled_rank 28 25 = Finite (7 + 1 / 2 ^ 50) \<and>
   percentile [1, 2, 3, 4, 5, 6, 7, 8, 9, 10, 11, 12, 13, 14, 15, 16, 17, 18, 19, 20,
     21, 22, 23, 24, 25] 28 = Num 8 \<and>
   [1, 2, 3, 4, 5, 6, 7, 8, 9, 10, 11, 12, 13, 14, 15, 16, 17, 18, 19, 20,
     21, 22, 23, 24, 25 :: rat] ! nat (nearest_rank_index 28 25) = 7 \<and>
   percentile [1, 2, 3, 4, 5, 6, 7, 8, 9, 10, 11, 12, 13, 14, 15, 16, 17, 18, 19, 20,
     21, 22, 23, 24, 25] 28 \<noteq>
   Num ([1, 2, 3, 4, 5, 6, 7, 8, 9, 10, 11, 12, 13, 14, 15, 16, 17, 18, 19, 20,
     21, 22, 23, 24, 25] ! nat (nearest_rank_index 28 25))"
proof -
  have s: "scaled_rank 28 25 = Finite (7 + 1 / 2 ^ 50)"
    by (simp add: scaled_rank_def binary64_eval)
  have i: "nearest_rank_index 28 25 = 6"
    by (simp add: nearest_rank_index_def clamp_def ceiling_rat_numeral)
  have c: "\<lceil>7 + 1 / 2 ^ 50 :: rat\<rceil> = 8" by (simp add: ceiling_eq_iff)
  let ?l = "[1, 2, 3, 4, 5, 6, 7, 8, 9, 10, 11, 12, 13, 14, 15, 16, 17, 18, 19, 20,
     21, 22, 23, 24, 25 :: rat]"
  have len: "length ?l = 25" by simp
  from s have "scaled_rank 28 (length ?l) = Finite (7 + 1 / 2 ^ 50)" by (simp only: len)
  from percentile_finite [OF _ this]
  have "percentile ?l 28 = Num (?l ! nat (clamp (8 - 1) 0 (25 - 1)))" by (simp only: c len) simp
  then have v: "percentile ?l 28 = Num 8" by (simp add: clamp_def)
  have w: "?l ! nat (nearest_rank_index 28 25) = 7" by (simp add: i)
  from s v w show ?thesis by simp
qed

section \<open>Properties of the timeout guard\<close>

lemma withTimeout_timers_result:
  "fst (withTimeout_timers p ms label tm) = withTimeout p ms label"
  by (simp add: withTimeout_timers_def withTimeout_def setTimeout_def split: promise.splits)

lemma timer_delay_60000 [simp]: "timer_delay 60000 = 60000"
  by (simp add: timer_delay_def)

text \<open>
  C5: for a deadline \<open>ms\<close> between 1 and \<open>2^31 - 1\<close> milliseconds, as the runner's
  60000, an operation that settles before the deadline passes its own result or error
  through \<open>withTimeout\<close>; when the deadline comes first, or the operation never
  settles, the call fails with the timeout error whose message ends in the label,
  whatever the abandoned operation would have produced. For any other \<open>ms\<close> the same
  holds with a deadline of 1 millisecond, and the message still names \<open>ms\<close>.
\<close>

theorem withTimeout_race:
  "(1 \<le> ms \<and> ms \<le> 2 ^ 31 - 1 \<longrightarrow>
      (d < of_nat ms \<longrightarrow> withTimeout (Settles d r) ms label = r) \<and>
      (of_nat ms < d \<longrightarrow>
         withTimeout (Settles d r) ms label = Inl (timeout_error ms label))) \<and>
   (ms = 0 \<or> 2 ^ 31 - 1 < ms \<longrightarrow>
      (d < 1 \<longrightarrow> withTimeout (Settles d r) ms label = r) \<and>
      (1 < d \<longrightarrow> withTimeout (Settles d r) ms label = Inl (timeout_error ms label))) \<and>
   withTimeout Never ms label = Inl (timeout_error ms label) \<and>
   message (timeout_error ms label) =
     Some (''timeout after '' @ string_of_nat ms @ ''ms: '' @ label)"
  by (auto simp: withTimeout_def timeout_error_def timer_delay_def)

theorem withTimeout_race_witness:
  "(1 :: nat) \<le> 60000 \<and> (60000 :: nat) \<le> 2 ^ 31 - 1 \<and>
   (5 :: rat) < of_nat 60000 \<and>
   withTimeout (Settles 5 (Inr [1 :: byte])) 60000 ''callback i=0'' = Inr [1] \<and>
   of_nat 60000 < (60001 :: rat) \<and>
   withTimeout (Settles 60001 (Inr [1 :: byte])) 60000 ''callback i=0'' =
     Inl (JsError (Some ''timeout after 60000ms: callback i=0'') None) \<and>
   (2 :: nat) ^ 31 - 1 < 2147483648 \<and> (1 / 2 :: rat) < 1 \<and>
   withTimeout (Settles (1 / 2) (Inr [1 :: byte])) 2147483648 ''callback i=0'' = Inr [1] \<and>
   (1 :: rat) < 50 \<and>
   withTimeout (Settles 50 (Inr [1 :: byte])) 2147483648 ''callback i=0'' =
     Inl (JsError (Some ''timeout after 2147483648ms: callback i=0'') None)"
  using withTimeout_race [of 60000 5 "Inr [1 :: byte]" "''callback i=0''"]
    withTimeout_race [of 60000 60001 "Inr [1 :: byte]" "''callback i=0''"]
    withTimeout_race [of 2147483648 "1 / 2" "Inr [1 :: byte]" "''callback i=0''"]
    withTimeout_race [of 2147483648 50 "Inr [1 :: byte]" "''callback i=0''"]
  by (auto simp: timeout_error_def string_of_nat.simps digit_char_def)

text \<open>
  With a deadline of \<open>2^31\<close> milliseconds an operation that settles after 50
  milliseconds, long before that deadline, loses the race: the timer runs for 1
  millisecond only.
\<close>

theorem withTimeout_race_beyond_int32:
  "(50 :: rat) < of_nat 2147483648 \<and>
   withTimeout (Settles 50 (Inr [1 :: byte])) 2147483648 ''callback i=0'' \<noteq> Inr [1] \<and>
   withTimeout (Settles 50 (Inr [1 :: byte])) 2147483648 ''callback i=0'' =
     Inl (JsError (Some ''timeout after 2147483648ms: callback i=0'') None)"
  by (simp add: withTimeout_def timer_delay_def timeout_error_def string_of_nat.simps
      digit_char_def)

text \<open>
  C6: whichever side of the race settles first (fulfilment, rejection or the
  deadline), \<open>clearTimeout\<close> runs exactly once for the timer that the call armed,
  that timer is not armed afterwards and the other armed timers are untouched.
\<close>

theorem withTimeout_releases_timer:
  assumes "timers_wf tm"
  shows "fst (withTimeout_timers p ms label tm) = withTimeout p ms label \<and>
         armed (snd (withTimeout_timers p ms label tm)) = armed tm \<and>
         next_handle tm \<notin> set (armed (snd (withTimeout_timers p ms label tm))) \<and>
         count_list (timer_log (snd (withTimeout_timers p ms label tm))) (Cleared (next_handle tm)) = 1 \<and>
         last (timer_log (snd (withTimeout_timers p ms label tm))) = Cleared (next_handle tm) \<and>
         timers_wf (snd (withTimeout_timers p ms label tm))"
proof -
  have fresh: "next_handle tm \<notin> set (armed tm)"
    using assms by (auto simp: timers_wf_def list_all_iff)
  have nolog: "Cleared (next_handle tm) \<notin> set (timer_log tm)"
    using assms by (auto simp: timers_wf_def list_all_iff timer_handle_def)
  then have cnt: "count_list (timer_log tm) (Cleared (next_handle tm)) = 0"
    by (simp add: count_list_0_iff)
  have wf: "list_all (\<lambda>h. h < Suc (next_handle tm)) (armed tm)"
    "list_all (\<lambda>e. timer_handle e < Suc (next_handle tm)) (timer_log tm)"
    using assms by (auto simp: timers_wf_def list_all_iff less_Suc_eq)
  show ?thesis
    using fresh cnt wf
    by (cases p)
      (simp_all add: withTimeout_timers_def withTimeout_def setTimeout_def clearTimeout_def
        elapse_def timers_wf_def timer_handle_def)
qed

theorem withTimeout_releases_timer_witness:
  "timers_wf \<lparr>armed = [2, 0], next_handle = 3,
      timer_log = [Armed 0 60000, Armed 1 60000, Cleared 1, Armed 2 60000]\<rparr> \<and>
   armed (snd (withTimeout_timers (Never :: buffer promise) 60000 ''callback i=1''
     \<lparr>armed = [2, 0], next_handle = 3,
      timer_log = [Armed 0 60000, Armed 1 60000, Cleared 1, Armed 2 60000]\<rparr>)) = [2, 0] \<and>
   count_list (timer_log (snd (withTimeout_timers (Never :: buffer promise) 60000 ''callback i=1''
     \<lparr>armed = [2, 0], next_handle = 3,
      timer_log = [Armed 0 60000, Armed 1 60000, Cleared 1, Armed 2 60000]\<rparr>))) (Cleared 3) = 1"
proof -
  let ?tm = "\<lparr>armed = [2, 0], next_handle = 3,
      timer_log = [Armed 0 60000, Armed 1 60000, Cleared 1, Armed 2 60000]\<rparr>"
  have wf: "timers_wf ?tm" by (simp add: timers_wf_def timer_handle_def)
  show ?thesis
    using wf withTimeout_releases_timer [OF wf, of "Never :: buffer promise" 60000 "''callback i=1''"]
    by simp
qed

section \<open>Properties of the input generator\<close>

text \<open>
  C7: in sequential mode \<open>mkInput\<close> returns the bytes of \<open>"pwd-" + i\<close> and of
  \<open>"salt-" + i\<close>, leaves the random generator untouched and does not read it, so
  two calls for the same index give the same pair whatever happened in between.
\<close>

theorem mkInput_sequential:
  "mkInput ''sequential'' i t =
     ((Buffer_from (''pwd-'' @ string_of_nat i), Buffer_from (''salt-'' @ string_of_nat i)), t) \<and>
   fst (mkInput ''sequential'' i t) = fst (mkInput ''sequential'' i t')"
  by (simp add: mkInput_def)

theorem mkInput_sequential_witness:
  "mkInput ''sequential'' 12 1337 =
     (([112, 119, 100, 45, 49, 50], [115, 97, 108, 116, 45, 49, 50]), 1337)"
  using mkInput_sequential [of 12 1337]
  by (simp add: Buffer_from_def string_of_nat.simps digit_char_def)

section \<open>Properties of the sequence generator\<close>

lemma unat32_unit_interval:
  "0 \<le> (of_nat (unat (w :: 32 word)) :: rat) / 4294967296 \<and>
   (of_nat (unat w) :: rat) / 4294967296 < 1"
proof -
  have "unat w < 4294967296"
    using unsigned_less [of w, where 'a = nat] by simp
  then have "(of_nat (unat w) :: rat) < of_nat 4294967296"
    by (simp only: of_nat_less_iff)
  moreover have "(0 :: rat) \<le> of_nat (unat w)"
    by (rule of_nat_0_le_iff)
  ultimately show ?thesis by simp
qed

lemma mulberry32_call_range: "0 \<le> fst (mulberry32_call t) \<and> fst (mulberry32_call t) < 1"
  unfolding mulberry32_call_def Let_def fst_conv by (rule unat32_unit_interval)

lemma gen_calls_range: "\<forall>x \<in> set (fst (gen_calls cs h)). 0 \<le> snd x \<and> snd x < 1"
proof (induction cs arbitrary: h)
  case Nil
  show ?case by simp
next
  case (Cons g gs)
  obtain v t where vt: "mulberry32_call (h ! g) = (v, t)" by (cases "mulberry32_call (h ! g)")
  then have "0 \<le> v \<and> v < 1"
    using mulberry32_call_range [of "h ! g"] by simp
  with vt Cons.IH [of "h[g := t]"] show ?case
    by (simp add: gen_call_def case_prod_beta)
qed

lemma outputs_of_gen_calls:
  "g < length h \<Longrightarrow>
   outputs_of g (fst (gen_calls cs h)) = mulberry32_seq (count_list cs g) (h ! g)"
proof (induction cs arbitrary: h)
  case Nil
  show ?case by (simp add: outputs_of_def)
next
  case (Cons c cs)
  obtain v t where vt: "mulberry32_call (h ! c) = (v, t)" by (cases "mulberry32_call (h ! c)")
  let ?h1 = "h[c := t]"
  have len: "g < length ?h1" using Cons.prems by simp
  have ih: "outputs_of g (fst (gen_calls cs ?h1)) = mulberry32_seq (count_list cs g) (?h1 ! g)"
    by (rule Cons.IH [OF len])
  show ?case
  proof (cases "c = g")
    case True
    with vt ih Cons.prems show ?thesis
      by (simp add: gen_call_def outputs_of_def case_prod_beta)
  next
    case False
    with vt ih show ?thesis
      by (simp add: gen_call_def outputs_of_def case_prod_beta)
  qed
qed

lemma take_mulberry32_seq: "N \<le> n \<Longrightarrow> take N (mulberry32_seq n t) = mulberry32_seq N t"
proof (induction N arbitrary: n t)
  case 0
  show ?case by simp
next
  case (Suc N)
  then obtain m where "n = Suc m" by (cases n) auto
  with Suc show ?case by (simp add: case_prod_beta)
qed

text \<open>
  C8: two generators built from the same seed sit in different cells, and under
  every interleaving of calls the first \<open>N\<close> values of the one equal the first \<open>N\<close>
  values of the other; every value returned lies in \<open>[0, 1)\<close>.
\<close>

theorem mulberry32_same_seed:
  assumes "mulberry32 s h = (g1, h1)" and "mulberry32 s h1 = (g2, h2)"
    and "N \<le> count_list cs g1" and "N \<le> count_list cs g2"
  shows "g1 \<noteq> g2 \<and>
         take N (outputs_of g1 (fst (gen_calls cs h2))) =
         take N (outputs_of g2 (fst (gen_calls cs h2))) \<and>
         (\<forall>x \<in> set (fst (gen_calls cs h2)). 0 \<le> snd x \<and> snd x < 1)"
proof -
  from assms(1,2) have g: "g1 = length h" "g2 = Suc (length h)"
    and h2: "h2 = h @ [nat (s mod 2 ^ 32), nat (s mod 2 ^ 32)]"
    by (auto simp: mulberry32_def)
  have c1: "h2 ! g1 = nat (s mod 2 ^ 32)" and c2: "h2 ! g2 = nat (s mod 2 ^ 32)"
    by (simp_all add: g h2 nth_append)
  have l: "g1 < length h2" "g2 < length h2" by (simp_all add: g h2)
  have "take N (outputs_of g1 (fst (gen_calls cs h2))) = mulberry32_seq N (nat (s mod 2 ^ 32))"
    by (simp add: outputs_of_gen_calls [OF l(1)] c1 take_mulberry32_seq [OF assms(3)])
  moreover
  have "take N (outputs_of g2 (fst (gen_calls cs h2))) = mulberry32_seq N (nat (s mod 2 ^ 32))"
    by (simp add: outputs_of_gen_calls [OF l(2)] c2 take_mulberry32_seq [OF assms(4)])
  ultimately show ?thesis
    using gen_calls_range [of cs h2] g by simp
qed

theorem mulberry32_same_seed_witness:
  "mulberry32 1337 [] = (0, [1337]) \<and> mulberry32 1337 [1337] = (1, [1337, 1337]) \<and>
   2 \<le> count_list [0, 1, 1, 0 :: nat] 0 \<and> 2 \<le> count_list [0, 1, 1, 0 :: nat] 1 \<and>
   take 2 (outputs_of 0 (fst (gen_calls [0, 1, 1, 0] [1337, 1337]))) =
   take 2 (outputs_of 1 (fst (gen_calls [0, 1, 1, 0] [1337, 1337])))"
proof -
  have a: "mulberry32 1337 [] = (0, [1337])" "mulberry32 1337 [1337] = (1, [1337, 1337])"
    by (simp_all add: mulberry32_def)
  have b: "2 \<le> count_list [0, 1, 1, 0 :: nat] 0" "2 \<le> count_list [0, 1, 1, 0 :: nat] 1"
    by simp_all
  from mulberry32_same_seed [OF a b] a b show ?thesis by blast
qed

section \<open>Properties of the batch runner\<close>

subsection \<open>The history and the sums over the workers\<close>

lemma popped_append: "popped (xs @ ys) = popped xs @ popped ys"
  by (induction xs rule: popped.induct) simp_all

lemma oks_append: "oks (xs @ ys) = oks xs @ oks ys"
  by (induction xs rule: oks.induct) simp_all

lemma fails_append: "fails (xs @ ys) = fails xs @ fails ys"
  by (induction xs rule: fails.induct) simp_all

lemma completed_delays_append:
  "completed_delays (xs @ ys) = completed_delays xs @ completed_delays ys"
  by (induction xs rule: completed_delays.induct) simp_all

lemma sum_list_map_update:
  fixes f :: "'a \<Rightarrow> 'b :: comm_monoid_add"
  shows "w < length ws \<Longrightarrow>
    sum_list (map f (ws[w := x])) + f (ws ! w) = sum_list (map f ws) + f x"
proof (induction ws arbitrary: w)
  case Nil
  then show ?case by simp
next
  case (Cons k ks)
  show ?case
  proof (cases w)
    case 0
    then show ?thesis by (simp add: ac_simps)
  next
    case (Suc v)
    with Cons.prems have "v < length ks" by simp
    from Cons.IH [OF this] Suc show ?thesis
      by (simp add: ac_simps)
  qed
qed

subsection \<open>What one turn does\<close>

lemma withTimeout_completed:
  "(\<exists>k. withTimeout q 60000 l = Inr k) = completed q"
  by (auto simp: withTimeout_def completed_def split: promise.splits sum.splits)

lemma runOnce_effect:
  "\<exists>r q t. runOnce env a w i st =
      (r, st\<lparr>rand_t := t, invocations := Suc (invocations st),
             history := history st @ [Invoke w i (invocations st) q]\<rparr>) \<and> sample_ok r q"
proof -
  obtain pwd salt t where m: "mkInput (mode env) i (rand_t st) = ((pwd, salt), t)"
    by (metis prod.exhaust)
  let ?q = "variants (variant a) (scrypt env (invocations st)) pwd salt (keyLen a) (opts a)"
  let ?l = "variant_name (variant a) @ '' i='' @ string_of_nat i"
  show ?thesis
  proof (cases "withTimeout ?q 60000 ?l")
    case (Inl e)
    then have "\<not> completed ?q" using withTimeout_completed [of ?q ?l] by simp
    with Inl m show ?thesis
      by (intro exI [of _ "Inl e"] exI [of _ ?q] exI [of _ t])
        (simp add: runOnce_def sample_ok_def Let_def)
  next
    case (Inr k)
    then have "completed ?q" using withTimeout_completed [of ?q ?l] by auto
    with Inr m show ?thesis
      by (intro exI [of _ "Inr (k, settle_delay ?q)"] exI [of _ ?q] exI [of _ t])
        (simp add: runOnce_def sample_ok_def Let_def)
  qed
qed

lemma worker_loop_empty:
  "queue st = [] \<Longrightarrow> worker_loop env a w st = st\<lparr>workers := (workers st)[w := Finished]\<rparr>"
  by (simp add: worker_loop_def)

lemma worker_loop_pop:
  assumes "queue st \<noteq> []"
  shows "\<exists>r q t. worker_loop env a w st =
      st\<lparr>queue := butlast (queue st), rand_t := t, invocations := Suc (invocations st),
         history := history st @ [Pop w (last (queue st)), Invoke w (last (queue st)) (invocations st) q],
         workers := (workers st)[w := AwaitA (last (queue st)) r]\<rparr> \<and> sample_ok r q"
proof -
  let ?st = "st\<lparr>queue := butlast (queue st), history := history st @ [Pop w (last (queue st))]\<rparr>"
  obtain r q t where "runOnce env a w (last (queue st)) ?st =
      (r, ?st\<lparr>rand_t := t, invocations := Suc (invocations ?st),
             history := history ?st @ [Invoke w (last (queue st)) (invocations ?st) q]\<rparr>)"
    and "sample_ok r q"
    using runOnce_effect [of env a w "last (queue st)" ?st] by blast
  with assms show ?thesis
    by (intro exI [of _ r] exI [of _ q] exI [of _ t]) (simp add: worker_loop_def Let_def)
qed

lemma sum_list_map_update_zero:
  fixes f :: "'a \<Rightarrow> 'b :: cancel_comm_monoid_add"
  assumes "w < length ws" and "f z = 0"
  shows "sum_list (map f (ws[w := y])) = sum_list (map f (ws[w := z])) + f y"
proof -
  have "w < length (ws[w := z])" using assms(1) by simp
  from sum_list_map_update [OF this, of f y] assms show ?thesis by simp
qed

lemma holding_sum_update:
  "w < length ws \<Longrightarrow> holding_sum (ws[w := y]) = holding_sum (ws[w := Finished]) + mset (holding y)"
  unfolding holding_sum_def
  by (rule sum_list_map_update_zero) (simp_all add: holding_def)

lemma awaited_sum_update:
  "w < length ws \<Longrightarrow>
   awaited_sum (ws[w := y]) = awaited_sum (ws[w := Finished]) + mset (awaited_sample y)"
  unfolding awaited_sum_def
  by (rule sum_list_map_update_zero) (simp_all add: awaited_sample_def)

lemma holding_sum_split:
  "w < length ws \<Longrightarrow> holding_sum ws = holding_sum (ws[w := Finished]) + mset (holding (ws ! w))"
  using holding_sum_update [of w ws "ws ! w"] by simp

lemma awaited_sum_split:
  "w < length ws \<Longrightarrow>
   awaited_sum ws = awaited_sum (ws[w := Finished]) + mset (awaited_sample (ws ! w))"
  using awaited_sum_update [of w ws "ws ! w"] by simp

lemma mset_butlast_last: "xs \<noteq> [] \<Longrightarrow> add_mset (last xs) (mset (butlast xs)) = mset xs"
  by (induction xs) auto

lemma sample_ok_delays:
  "sample_ok r q \<Longrightarrow> completed_delays [Invoke w i n q] = awaited_sample (AwaitA i r)"
  "sample_ok r q \<Longrightarrow> completed_delays [Invoke w i n q] = awaited_sample (AwaitB i x r)"
  by (cases r; simp add: sample_ok_def awaited_sample_def)+

lemma completed_delays_Pop: "completed_delays (Pop w i # es) = completed_delays es"
  by simp

lemma mset_grow_both:
  fixes A :: "'a multiset"
  shows "A + B = C \<Longrightarrow> B' = B + X \<Longrightarrow> C' = C + X \<Longrightarrow> A + B' = C'"
  by simp

subsection \<open>The invariant\<close>

lemma worker_loop_inv:
  assumes "turn_inv a w st" and w: "w < length (workers st)"
  shows "batch_inv a (worker_loop env a w st)"
proof (cases "queue st = []")
  case True
  have "\<forall>v < length (workers st). (workers st)[w := Finished] ! v = Finished \<longrightarrow> queue st = []"
    using True by simp
  with assms True show ?thesis
    by (simp add: worker_loop_empty batch_inv_def turn_inv_def counters_inv_def)
next
  case False
  let ?i = "last (queue st)"
  obtain r q t where eq: "worker_loop env a w st =
      st\<lparr>queue := butlast (queue st), rand_t := t, invocations := Suc (invocations st),
         history := history st @ [Pop w ?i, Invoke w ?i (invocations st) q],
         workers := (workers st)[w := AwaitA ?i r]\<rparr>" and ok: "sample_ok r q"
    using worker_loop_pop [OF False, of env a w] by blast
  let ?h = "history st @ [Pop w ?i, Invoke w ?i (invocations st) q]"
  let ?ws = "(workers st)[w := AwaitA ?i r]"
  have nofin: "\<forall>v < length (workers st). v \<noteq> w \<longrightarrow> workers st ! v \<noteq> Finished"
    using assms(1) False by (auto simp: turn_inv_def others_finished_ok_def)
  have fin: "\<forall>v < length (workers st). ?ws ! v = Finished \<longrightarrow> butlast (queue st) = []"
    using nofin w by (auto simp: nth_list_update split: if_splits)
  have c: "counters_inv a ((workers st)[w := Finished]) st"
    using assms(1) by (simp add: turn_inv_def)
  have q: "mset (queue st) = add_mset ?i (mset (butlast (queue st)))"
    using False by (simp add: mset_butlast_last)
  have 1: "mset (butlast (queue st)) + mset (popped ?h) = mset [0..<iterations a]"
    using c q by (simp add: counters_inv_def popped_append)
  have 2: "mset (oks ?h) + mset (fails ?h) + holding_sum ?ws = mset (popped ?h)"
    using c holding_sum_update [OF w, of "AwaitA ?i r"]
    by (simp add: counters_inv_def popped_append oks_append fails_append holding_def)
  have 3: "ok st = length (oks ?h)" "fail st = length (fails ?h)"
    using c by (simp_all add: counters_inv_def oks_append fails_append)
  have 4: "mset (callDurations st) + awaited_sum ?ws = mset (completed_delays ?h)"
  proof (rule mset_grow_both)
    show "mset (callDurations st) + awaited_sum ((workers st)[w := Finished]) =
        mset (completed_delays (history st))"
      using c by (simp add: counters_inv_def)
    show "awaited_sum ?ws = awaited_sum ((workers st)[w := Finished]) + mset (awaited_sample (AwaitA ?i r))"
      by (rule awaited_sum_update [OF w])
    show "mset (completed_delays ?h) =
        mset (completed_delays (history st)) + mset (awaited_sample (AwaitA ?i r))"
      using sample_ok_delays(1) [OF ok, of w ?i "invocations st"]
      by (simp add: completed_delays_append completed_delays_Pop del: completed_delays.simps)
  qed
  from 1 2 3 4 fin show ?thesis
    by (simp add: eq batch_inv_def counters_inv_def)
qed

lemma oks_single [simp]: "oks [CountFail w i] = []" "oks [Invoke w i n q] = []" "oks [Pop w i] = []"
  by simp_all

lemma count_fail_turn:
  assumes inv: "batch_inv a st" and w: "w < length (workers st)"
    and hold: "holding (workers st ! w) = [i]"
    and smp: "awaited_sample (workers st ! w) = xs"
  shows "turn_inv a w (st\<lparr>callDurations := callDurations st @ xs, fail := Suc (fail st),
           errors := E, history := history st @ [CountFail w i]\<rparr>)"
proof -
  let ?B = "(workers st)[w := Finished]"
  from inv have c: "counters_inv a (workers st) st" by (simp add: batch_inv_def)
  have hs: "holding_sum (workers st) = holding_sum ?B + {#i#}"
    using holding_sum_split [OF w] hold by simp
  have as: "awaited_sum (workers st) = awaited_sum ?B + mset xs"
    using awaited_sum_split [OF w] smp by simp
  have 2: "mset (oks (history st)) + mset (fails (history st @ [CountFail w i])) + holding_sum ?B =
      mset (popped (history st))"
    using c hs by (simp add: counters_inv_def fails_append)
  have 5: "mset (callDurations st @ xs) + awaited_sum ?B = mset (completed_delays (history st))"
    using c as by (simp add: counters_inv_def ac_simps)
  from c 2 5 have "counters_inv a ?B (st\<lparr>callDurations := callDurations st @ xs, fail := Suc (fail st),
           errors := E, history := history st @ [CountFail w i]\<rparr>)"
    by (simp add: counters_inv_def popped_append oks_append fails_append completed_delays_append)
  moreover from inv have "others_finished_ok w (st\<lparr>callDurations := callDurations st @ xs,
      fail := Suc (fail st), errors := E, history := history st @ [CountFail w i]\<rparr>)"
    by (simp add: batch_inv_def others_finished_ok_def)
  ultimately show ?thesis by (simp add: turn_inv_def)
qed

lemma count_ok_turn:
  assumes inv: "batch_inv a st" and w: "w < length (workers st)"
    and hold: "holding (workers st ! w) = [i]"
    and smp: "awaited_sample (workers st ! w) = xs"
  shows "turn_inv a w (st\<lparr>callDurations := callDurations st @ xs, ok := Suc (ok st),
           history := history st @ [CountOk w i]\<rparr>)"
proof -
  let ?B = "(workers st)[w := Finished]"
  from inv have c: "counters_inv a (workers st) st" by (simp add: batch_inv_def)
  have hs: "holding_sum (workers st) = holding_sum ?B + {#i#}"
    using holding_sum_split [OF w] hold by simp
  have as: "awaited_sum (workers st) = awaited_sum ?B + mset xs"
    using awaited_sum_split [OF w] smp by simp
  have 2: "mset (oks (history st @ [CountOk w i])) + mset (fails (history st)) + holding_sum ?B =
      mset (popped (history st))"
    using c hs by (simp add: counters_inv_def oks_append)
  have 5: "mset (callDurations st @ xs) + awaited_sum ?B = mset (completed_delays (history st))"
    using c as by (simp add: counters_inv_def ac_simps)
  from c 2 5 have "counters_inv a ?B (st\<lparr>callDurations := callDurations st @ xs, ok := Suc (ok st),
           history := history st @ [CountOk w i]\<rparr>)"
    by (simp add: counters_inv_def popped_append oks_append fails_append completed_delays_append)
  moreover from inv have "others_finished_ok w (st\<lparr>callDurations := callDurations st @ xs,
      ok := Suc (ok st), history := history st @ [CountOk w i]\<rparr>)"
    by (simp add: batch_inv_def others_finished_ok_def)
  ultimately show ?thesis by (simp add: turn_inv_def)
qed

lemma second_call_inv:
  assumes inv: "batch_inv a st" and w: "w < length (workers st)"
    and at: "workers st ! w = AwaitA i (Inr x)"
    and run: "runOnce env a w i (st\<lparr>callDurations := callDurations st @ [snd x]\<rparr>) = (r2, st2)"
  shows "batch_inv a (st2\<lparr>workers := (workers st2)[w := AwaitB i x r2]\<rparr>)"
proof -
  let ?B = "(workers st)[w := Finished]"
  let ?st1 = "st\<lparr>callDurations := callDurations st @ [snd x]\<rparr>"
  obtain r q t where eq: "runOnce env a w i ?st1 =
      (r, ?st1\<lparr>rand_t := t, invocations := Suc (invocations ?st1),
             history := history ?st1 @ [Invoke w i (invocations ?st1) q]\<rparr>)" and ok: "sample_ok r q"
    using runOnce_effect [of env a w i ?st1] by blast
  with run have r2: "r2 = r" and st2: "st2 = st\<lparr>callDurations := callDurations st @ [snd x],
      rand_t := t, invocations := Suc (invocations st),
      history := history st @ [Invoke w i (invocations st) q]\<rparr>"
    by simp_all
  let ?h = "history st @ [Invoke w i (invocations st) q]"
  let ?ws = "(workers st)[w := AwaitB i x r]"
  from inv have c: "counters_inv a (workers st) st" by (simp add: batch_inv_def)
  have hs: "holding_sum (workers st) = holding_sum ?B + {#i#}"
    using holding_sum_split [OF w] at by (simp add: holding_def)
  have hs': "holding_sum ?ws = holding_sum ?B + {#i#}"
    using holding_sum_update [OF w, of "AwaitB i x r"] by (simp add: holding_def)
  have as: "awaited_sum (workers st) = awaited_sum ?B + {#snd x#}"
    using awaited_sum_split [OF w] at by (simp add: awaited_sample_def)
  have 1: "mset (queue st) + mset (popped ?h) = mset [0..<iterations a]"
    using c by (simp add: counters_inv_def popped_append)
  have 2: "mset (oks ?h) + mset (fails ?h) + holding_sum ?ws = mset (popped ?h)"
    using c hs hs' by (simp add: counters_inv_def popped_append oks_append fails_append)
  have 3: "ok st = length (oks ?h)" "fail st = length (fails ?h)"
    using c by (simp_all add: counters_inv_def oks_append fails_append)
  have 4: "mset (callDurations st @ [snd x]) + awaited_sum ?ws = mset (completed_delays ?h)"
  proof (rule mset_grow_both)
    show "mset (callDurations st @ [snd x]) + awaited_sum ?B = mset (completed_delays (history st))"
      using c as by (simp add: counters_inv_def ac_simps)
    show "awaited_sum ?ws = awaited_sum ?B + mset (awaited_sample (AwaitB i x r))"
      by (rule awaited_sum_update [OF w])
    show "mset (completed_delays ?h) =
        mset (completed_delays (history st)) + mset (awaited_sample (AwaitB i x r))"
      using sample_ok_delays(2) [OF ok, of w i "invocations st" x]
      by (simp add: completed_delays_append del: completed_delays.simps)
  qed
  have fin: "\<forall>v < length (workers st). ?ws ! v = Finished \<longrightarrow> queue st = []"
    using inv w by (auto simp: batch_inv_def nth_list_update split: if_splits)
  from 1 2 3 4 fin show ?thesis
    by (simp add: r2 st2 batch_inv_def counters_inv_def)
qed

lemma resume_inv:
  assumes inv: "batch_inv a st" and w: "w < length (workers st)"
  shows "batch_inv a (resume env a w st)"
proof (cases "workers st ! w")
  case Finished
  with inv show ?thesis by (simp add: resume_def)
next
  case (AwaitA i r)
  show ?thesis
  proof (cases r)
    case (Inl e)
    have "turn_inv a w (catch_block w i e st)"
      using count_fail_turn [OF inv w, of i "[]" "errors st @ [Error i (message e) (code e)]"]
        AwaitA Inl
      by (simp add: catch_block_def holding_def awaited_sample_def)
    then have "batch_inv a (worker_loop env a w (catch_block w i e st))"
      by (rule worker_loop_inv) (simp add: catch_block_def w)
    with AwaitA Inl show ?thesis by (simp add: resume_def)
  next
    case (Inr x)
    show ?thesis
    proof (cases "mode env = ''sequential''")
      case True
      obtain r2 st2 where run: "runOnce env a w i (st\<lparr>callDurations := callDurations st @ [snd x]\<rparr>) = (r2, st2)"
        by (metis prod.exhaust)
      from second_call_inv [OF inv w _ run] AwaitA Inr
      have "batch_inv a (st2\<lparr>workers := (workers st2)[w := AwaitB i x r2]\<rparr>)" by simp
      with AwaitA Inr True run show ?thesis by (simp add: resume_def)
    next
      case False
      have "turn_inv a w (st\<lparr>callDurations := callDurations st @ [snd x], ok := Suc (ok st),
           history := history st @ [CountOk w i]\<rparr>)"
        using count_ok_turn [OF inv w, of i "[snd x]"] AwaitA Inr
        by (simp add: holding_def awaited_sample_def)
      then have "batch_inv a (worker_loop env a w (st\<lparr>callDurations := callDurations st @ [snd x],
           ok := Suc (ok st), history := history st @ [CountOk w i]\<rparr>))"
        by (rule worker_loop_inv) (simp add: w)
      with AwaitA Inr False show ?thesis by (simp add: resume_def)
    qed
  qed
next
  case (AwaitB i x r)
  show ?thesis
  proof (cases r)
    case (Inl e)
    have "turn_inv a w (catch_block w i e st)"
      using count_fail_turn [OF inv w, of i "[]" "errors st @ [Error i (message e) (code e)]"]
        AwaitB Inl
      by (simp add: catch_block_def holding_def awaited_sample_def)
    then have "batch_inv a (worker_loop env a w (catch_block w i e st))"
      by (rule worker_loop_inv) (simp add: catch_block_def w)
    with AwaitB Inl show ?thesis by (simp add: resume_def)
  next
    case (Inr y)
    show ?thesis
    proof (cases "fst x = fst y")
      case True
      have "turn_inv a w (st\<lparr>callDurations := callDurations st @ [snd y], ok := Suc (ok st),
           history := history st @ [CountOk w i]\<rparr>)"
        using count_ok_turn [OF inv w, of i "[snd y]"] AwaitB Inr
        by (simp add: holding_def awaited_sample_def)
      then have "batch_inv a (worker_loop env a w (st\<lparr>callDurations := callDurations st @ [snd y],
           ok := Suc (ok st), history := history st @ [CountOk w i]\<rparr>))"
        by (rule worker_loop_inv) (simp add: w)
      with AwaitB Inr True show ?thesis by (simp add: resume_def)
    next
      case False
      let ?E = "errors st @ [Mismatch i (take 16 (toString_hex (fst x))) (take 16 (toString_hex (fst y)))]"
      have "turn_inv a w (st\<lparr>callDurations := callDurations st @ [snd y], fail := Suc (fail st),
           errors := ?E, history := history st @ [CountFail w i]\<rparr>)"
        using count_fail_turn [OF inv w, of i "[snd y]" ?E] AwaitB Inr
        by (simp add: holding_def awaited_sample_def)
      then have "batch_inv a (worker_loop env a w (st\<lparr>callDurations := callDurations st @ [snd y],
           fail := Suc (fail st), errors := ?E, history := history st @ [CountFail w i]\<rparr>))"
        by (rule worker_loop_inv) (simp add: w)
      with AwaitB Inr False show ?thesis by (simp add: resume_def)
    qed
  qed
qed

subsection \<open>Every turn makes progress\<close>

lemma worker_loop_length: "length (workers (worker_loop env a w st)) = length (workers st)"
proof (cases "queue st = []")
  case True
  then show ?thesis by (simp add: worker_loop_empty)
next
  case False
  from worker_loop_pop [OF this, of env a w] show ?thesis by auto
qed

lemma runOnce_length: "length (workers (snd (runOnce env a w i st))) = length (workers st)"
  using runOnce_effect [of env a w i st] by auto

lemma resume_length: "length (workers (resume env a w st)) = length (workers st)"
proof (cases "workers st ! w")
  case Finished
  then show ?thesis by (simp add: resume_def)
next
  case (AwaitA i r)
  then show ?thesis
    using runOnce_length [of env a w i "st\<lparr>callDurations := callDurations st @ [snd (projr r)]\<rparr>"]
    by (cases r) (simp_all add: resume_def worker_loop_length catch_block_def case_prod_beta Let_def)
next
  case (AwaitB i x r)
  then show ?thesis
    by (cases r) (simp_all add: resume_def worker_loop_length catch_block_def Let_def)
qed

lemma weight_sum_update:
  "w < length ws \<Longrightarrow>
   sum_list (map weight (ws[w := y])) = sum_list (map weight (ws[w := Finished])) + weight y"
  by (rule sum_list_map_update_zero) (simp_all add: weight_def)

lemma weight_sum_split:
  "w < length ws \<Longrightarrow>
   sum_list (map weight ws) = sum_list (map weight (ws[w := Finished])) + weight (ws ! w)"
  using weight_sum_update [of w ws "ws ! w"] by simp

lemma worker_loop_work:
  assumes w: "w < length (workers st)"
  shows "work (worker_loop env a w st) =
         2 * length (queue st) + sum_list (map weight ((workers st)[w := Finished]))"
proof (cases "queue st = []")
  case True
  then show ?thesis by (simp add: worker_loop_empty work_def)
next
  case False
  then have pos: "0 < length (queue st)" by simp
  obtain r q t where eq: "worker_loop env a w st =
      st\<lparr>queue := butlast (queue st), rand_t := t, invocations := Suc (invocations st),
         history := history st @ [Pop w (last (queue st)),
           Invoke w (last (queue st)) (invocations st) q],
         workers := (workers st)[w := AwaitA (last (queue st)) r]\<rparr>"
    using worker_loop_pop [OF False, of env a w] by blast
  have "Suc (Suc (2 * (length (queue st) - Suc 0))) = 2 * length (queue st)"
    using pos by arith
  then show ?thesis
    using weight_sum_update [OF w, of "AwaitA (last (queue st)) r"]
    by (simp add: eq work_def weight_def)
qed

lemma resume_work:
  assumes w: "w < length (workers st)" and s: "workers st ! w \<noteq> Finished"
  shows "work (resume env a w st) < work st"
proof -
  have split: "work st = 2 * length (queue st) +
      sum_list (map weight ((workers st)[w := Finished])) + weight (workers st ! w)"
    using weight_sum_split [OF w] by (simp add: work_def)
  have pos: "0 < weight (workers st ! w)"
    using s by (cases "workers st ! w") (simp_all add: weight_def)
  have loop: "work (worker_loop env a w st') < work st"
    if "queue st' = queue st" and "workers st' = workers st" for st'
    using worker_loop_work [of w st' env a] that w split pos by simp
  show ?thesis
  proof (cases "workers st ! w")
    case Finished
    with s show ?thesis by simp
  next
    case (AwaitA i r)
    show ?thesis
    proof (cases r)
      case (Inl e)
      with AwaitA loop [of "catch_block w i e st"] show ?thesis
        by (simp add: resume_def catch_block_def)
    next
      case (Inr x)
      show ?thesis
      proof (cases "mode env = ''sequential''")
        case True
        obtain r q t where "runOnce env a w i (st\<lparr>callDurations := callDurations st @ [snd x]\<rparr>) =
          (r, st\<lparr>callDurations := callDurations st @ [snd x], rand_t := t,
                invocations := Suc (invocations st),
                history := history st @ [Invoke w i (invocations st) q]\<rparr>)"
          using runOnce_effect [of env a w i "st\<lparr>callDurations := callDurations st @ [snd x]\<rparr>"]
          by auto
        with AwaitA Inr True weight_sum_update [OF w, of "AwaitB i x r"] split show ?thesis
          by (simp add: resume_def work_def weight_def)
      next
        case False
        with AwaitA Inr loop [of "st\<lparr>callDurations := callDurations st @ [snd x],
          ok := Suc (ok st), history := history st @ [CountOk w i]\<rparr>"] show ?thesis
          by (simp add: resume_def)
      qed
    qed
  next
    case (AwaitB i x r)
    show ?thesis
    proof (cases r)
      case (Inl e)
      with AwaitB loop [of "catch_block w i e st"] show ?thesis
        by (simp add: resume_def catch_block_def)
    next
      case (Inr y)
      show ?thesis
      proof (cases "fst x = fst y")
        case True
        with AwaitB Inr loop [of "st\<lparr>callDurations := callDurations st @ [snd y],
          ok := Suc (ok st), history := history st @ [CountOk w i]\<rparr>"] show ?thesis
          by (simp add: resume_def)
      next
        case False
        with AwaitB Inr loop [of "st\<lparr>callDurations := callDurations st @ [snd y],
          fail := Suc (fail st),
          errors := errors st @ [Mismatch i (take 16 (toString_hex (fst x)))
                                   (take 16 (toString_hex (fst y)))],
          history := history st @ [CountFail w i]\<rparr>"] show ?thesis
          by (simp add: resume_def)
      qed
    qed
  qed
qed

lemma suspended_pick:
  assumes "suspended st \<noteq> []"
  shows "suspended st ! (c mod length (suspended st)) < length (workers st) \<and>
         workers st ! (suspended st ! (c mod length (suspended st))) \<noteq> Finished"
proof -
  have "suspended st ! (c mod length (suspended st)) \<in> set (suspended st)"
    using assms by (intro nth_mem) simp
  then show ?thesis by (simp add: suspended_def)
qed

lemma run_total: "work st \<le> length sched \<Longrightarrow> \<exists>st'. run env a sched st = Some st'"
proof (induction sched arbitrary: st)
  case Nil
  then have "sum_list (map weight (workers st)) = 0" by (simp add: work_def)
  then have "\<forall>k \<in> set (workers st). weight k = 0" by simp
  moreover have "k = Finished" if "weight k = 0" for k
    using that by (cases k) (simp_all add: weight_def)
  ultimately have "\<forall>k \<in> set (workers st). k = Finished"
    by blast
  then have "suspended st = []"
    by (auto simp: suspended_def filter_empty_conv)
  then show ?case by simp
next
  case (Cons c cs)
  show ?case
  proof (cases "suspended st = []")
    case True
    then show ?thesis by simp
  next
    case False
    let ?w = "suspended st ! (c mod length (suspended st))"
    from suspended_pick [OF False, of c] have "work (resume env a ?w st) < work st"
      by (intro resume_work) simp_all
    with Cons.prems have "work (resume env a ?w st) \<le> length cs" by simp
    from Cons.IH [OF this] False show ?thesis by simp
  qed
qed

lemma run_inv:
  "run env a sched st = Some st' \<Longrightarrow> batch_inv a st \<Longrightarrow>
   batch_inv a st' \<and> suspended st' = [] \<and> length (workers st') = length (workers st)"
proof (induction sched arbitrary: st)
  case Nil
  then show ?case by (simp split: if_splits)
next
  case (Cons c cs)
  show ?case
  proof (cases "suspended st = []")
    case True
    with Cons.prems show ?thesis by simp
  next
    case False
    let ?w = "suspended st ! (c mod length (suspended st))"
    from suspended_pick [OF False, of c] have w: "?w < length (workers st)" by simp
    from Cons.prems(1) False have "run env a cs (resume env a ?w st) = Some st'" by simp
    from Cons.IH [OF this resume_inv [OF Cons.prems(2) w]] show ?thesis
      by (simp add: resume_length)
  qed
qed

subsection \<open>The workers are started\<close>

lemma init_inv: "batch_inv a (init a t0)"
  by (simp add: batch_inv_def counters_inv_def init_def holding_sum_def awaited_sum_def)

lemma spawn_inv:
  assumes "batch_inv a st"
  shows "batch_inv a (spawn env a st (length (workers st)))"
proof -
  let ?st = "st\<lparr>workers := workers st @ [Finished]\<rparr>"
  have u: "(workers st @ [Finished])[length (workers st) := Finished] = workers st @ [Finished]"
    by simp
  have "counters_inv a (workers st @ [Finished]) ?st"
    using assms by (simp add: batch_inv_def counters_inv_def holding_sum_def awaited_sum_def
        holding_def awaited_sample_def)
  moreover have "others_finished_ok (length (workers st)) ?st"
    using assms by (auto simp: batch_inv_def others_finished_ok_def nth_append less_Suc_eq)
  ultimately have "turn_inv a (length (workers st)) ?st"
    by (simp add: turn_inv_def)
  then show ?thesis
    unfolding spawn_def by (rule worker_loop_inv) simp
qed

lemma spawn_length: "length (workers (spawn env a st w)) = Suc (length (workers st))"
  by (simp add: spawn_def worker_loop_length)

lemma spawn_work: "work (spawn env a st (length (workers st))) = work st"
  unfolding spawn_def
  by (subst worker_loop_work) (simp_all add: work_def weight_def)

lemma spawn_all:
  "batch_inv a st \<Longrightarrow> workers st = [] \<Longrightarrow>
   batch_inv a (foldl (spawn env a) st [0..<n]) \<and>
   length (workers (foldl (spawn env a) st [0..<n])) = n \<and>
   work (foldl (spawn env a) st [0..<n]) = work st"
proof (induction n)
  case 0
  then show ?case by simp
next
  case (Suc n)
  let ?st = "foldl (spawn env a) st [0..<n]"
  from Suc have ih: "batch_inv a ?st" "length (workers ?st) = n" "work ?st = work st"
    by simp_all
  from spawn_inv [OF ih(1), of env] spawn_length [of env a ?st n] spawn_work [of env a ?st] ih
  show ?case by simp
qed

lemma start_facts:
  "batch_inv a (start env a t0) \<and> length (workers (start env a t0)) = concurrency a \<and>
   work (start env a t0) = 2 * iterations a"
proof -
  have "workers (init a t0) = []" by (simp add: init_def)
  from spawn_all [OF init_inv this, of env "concurrency a"] show ?thesis
    by (simp add: start_def work_def init_def)
qed

subsection \<open>A finished batch\<close>

lemma worker_loop_fields:
  "ok (worker_loop env a w st) = ok st \<and> fail (worker_loop env a w st) = fail st \<and>
   errors (worker_loop env a w st) = errors st \<and>
   callDurations (worker_loop env a w st) = callDurations st \<and>
   (\<forall>v. v \<noteq> w \<longrightarrow> workers (worker_loop env a w st) ! v = workers st ! v)"
proof (cases "queue st = []")
  case True
  then show ?thesis by (simp add: worker_loop_empty)
next
  case False
  from worker_loop_pop [OF this, of env a w] show ?thesis by auto
qed

lemma worker_loop_next:
  "w < length (workers st) \<Longrightarrow>
   queue (worker_loop env a w st) = butlast (queue st) \<and>
   (queue st = [] \<longrightarrow> workers (worker_loop env a w st) ! w = Finished) \<and>
   (queue st \<noteq> [] \<longrightarrow>
      (\<exists>r. workers (worker_loop env a w st) ! w = AwaitA (last (queue st)) r))"
proof (cases "queue st = []")
  case True
  assume "w < length (workers st)"
  with True show ?thesis by (simp add: worker_loop_empty)
next
  case False
  assume "w < length (workers st)"
  with False worker_loop_pop [OF False, of env a w] show ?thesis by auto
qed

lemma runOnce_fields:
  "ok (snd (runOnce env a w i st)) = ok st \<and> fail (snd (runOnce env a w i st)) = fail st \<and>
   errors (snd (runOnce env a w i st)) = errors st \<and>
   callDurations (snd (runOnce env a w i st)) = callDurations st \<and>
   queue (snd (runOnce env a w i st)) = queue st \<and>
   workers (snd (runOnce env a w i st)) = workers st"
  using runOnce_effect [of env a w i st] by auto

lemma resume_callDurations:
  "callDurations (resume env a w st) = callDurations st @ awaited_sample (workers st ! w)"
proof (cases "workers st ! w")
  case Finished
  then show ?thesis by (simp add: resume_def awaited_sample_def)
next
  case (AwaitA i r)
  then show ?thesis
    using runOnce_fields [of env a w i "st\<lparr>callDurations := callDurations st @ [snd (projr r)]\<rparr>"]
    by (cases r)
      (simp_all add: resume_def awaited_sample_def worker_loop_fields catch_block_def Let_def
        case_prod_beta)
next
  case (AwaitB i x r)
  then show ?thesis
    by (cases r)
      (simp_all add: resume_def awaited_sample_def worker_loop_fields catch_block_def Let_def)
qed

lemma sum_list_all_zero:
  fixes f :: "'a \<Rightarrow> 'b :: comm_monoid_add"
  shows "\<forall>k \<in> set ws. f k = 0 \<Longrightarrow> sum_list (map f ws) = 0"
  by (induction ws) simp_all

lemma all_finished:
  assumes "suspended st = []"
  shows "holding_sum (workers st) = {#} \<and> awaited_sum (workers st) = {#} \<and>
         (\<forall>v < length (workers st). workers st ! v = Finished)"
proof -
  from assms have f: "\<forall>v < length (workers st). workers st ! v = Finished"
    by (auto simp: suspended_def filter_empty_conv)
  then have "\<forall>k \<in> set (workers st). k = Finished"
    by (auto simp: in_set_conv_nth)
  then have "\<forall>k \<in> set (workers st). mset (holding k) = {#} \<and> mset (awaited_sample k) = {#}"
    by (auto simp: holding_def awaited_sample_def)
  then have "sum_list (map (\<lambda>k. mset (holding k)) (workers st)) = {#}"
    and "sum_list (map (\<lambda>k. mset (awaited_sample k)) (workers st)) = {#}"
    by (simp_all add: sum_list_all_zero)
  with f show ?thesis
    by (simp add: holding_sum_def awaited_sum_def)
qed

lemma finished_batch:
  assumes run: "run env a sched (start env a t0) = Some st"
  shows "ok st = length (oks (history st)) \<and> fail st = length (fails (history st)) \<and>
         mset (oks (history st)) + mset (fails (history st)) = mset (popped (history st)) \<and>
         mset (callDurations st) = mset (completed_delays (history st)) \<and>
         mset (queue st) + mset (popped (history st)) = mset [0..<iterations a] \<and>
         (0 < concurrency a \<longrightarrow> queue st = [])"
proof -
  from start_facts [of a env t0] have i: "batch_inv a (start env a t0)"
    and l: "length (workers (start env a t0)) = concurrency a" by simp_all
  from run_inv [OF run i] l have inv: "batch_inv a st" and s: "suspended st = []"
    and len: "length (workers st) = concurrency a" by simp_all
  from all_finished [OF s] have h: "holding_sum (workers st) = {#}"
    and w: "awaited_sum (workers st) = {#}"
    and f: "\<forall>v < length (workers st). workers st ! v = Finished" by simp_all
  have "queue st = []" if "0 < concurrency a"
    using inv f len that by (auto simp: batch_inv_def)
  with inv h w show ?thesis
    by (simp add: batch_inv_def counters_inv_def)
qed

lemma count_list_mset: "count_list xs x = count (mset xs) x"
  by (induction xs) simp_all

subsection \<open>The two runners step together\<close>

lemma withTimeout_labels:
  "outcome_rel (withTimeout q ms l0)
     (case withTimeout q ms l of Inl e \<Rightarrow> Inl e | Inr k \<Rightarrow> Inr (k, d))"
  by (auto simp: withTimeout_def outcome_rel_def timeout_error_def split: promise.splits sum.splits)

lemma runOnce_sim:
  assumes "state_rel s0 s"
  shows "state_rel (snd (runOnce0 env a w i s0)) (snd (runOnce env a w i s)) \<and>
         outcome_rel (withTimeout (fst (runOnce0 env a w i s0)) 60000 l0) (fst (runOnce env a w i s))"
proof -
  obtain pwd salt t where m: "mkInput (mode env) i (rand_t s) = ((pwd, salt), t)"
    by (metis prod.exhaust)
  from assms have e: "rand_t0 s0 = rand_t s" "invocations0 s0 = invocations s"
    by (simp_all add: state_rel_def)
  show ?thesis
    using assms m withTimeout_labels
    by (simp add: runOnce0_def runOnce_def e Let_def state_rel_def)
qed

lemma worker_loop_sim:
  assumes "state_rel s0 s"
  shows "state_rel (worker_loop0 env a w s0) (worker_loop env a w s)"
proof (cases "queue s = []")
  case True
  with assms show ?thesis
    by (simp add: worker_loop0_def worker_loop_def state_rel_def list_all2_update_cong)
next
  case False
  let ?i = "last (queue s)"
  let ?sa = "s0\<lparr>queue0 := butlast (queue0 s0), history0 := history0 s0 @ [Pop w ?i]\<rparr>"
  let ?sb = "s\<lparr>queue := butlast (queue s), history := history s @ [Pop w ?i]\<rparr>"
  from assms have q: "queue0 s0 = queue s" by (simp add: state_rel_def)
  from assms have "state_rel ?sa ?sb" by (simp add: state_rel_def)
  from runOnce_sim [OF this, of env a w ?i
      "variant_name (variant a) @ '' i='' @ string_of_nat ?i @ '' #1''"]
  show ?thesis
    using False q
    by (simp add: worker_loop0_def worker_loop_def state_rel_def list_all2_update_cong
        case_prod_beta Let_def)
qed

lemma catch_block_sim:
  "state_rel s0 s \<Longrightarrow> code e0 = code e \<Longrightarrow>
   state_rel (catch_block0 w i e0 s0) (catch_block w i e s)"
  by (simp add: catch_block0_def catch_block_def state_rel_def list_all2_appendI)

lemma resume_sim:
  assumes rel: "state_rel s0 s" and w: "w < length (workers s)"
  shows "state_rel (resume0 env a w s0) (resume env a w s)"
proof -
  from rel have ws: "list_all2 worker_rel (workers0 s0) (workers s)"
    by (simp add: state_rel_def)
  with w have wr: "worker_rel (workers0 s0 ! w) (workers s ! w)"
    by (simp add: list_all2_nthD2)
  show ?thesis
  proof (cases "workers s ! w")
    case Finished
    with wr have "workers0 s0 ! w = Finished0" by (cases "workers0 s0 ! w") simp_all
    with Finished rel show ?thesis by (simp add: resume0_def resume_def)
  next
    case (AwaitA i r)
    with wr obtain r0 where w0: "workers0 s0 ! w = Await1 i r0" and o: "outcome_rel r0 r"
      by (cases "workers0 s0 ! w") simp_all
    show ?thesis
    proof (cases r)
      case (Inl e)
      with o obtain e0 where r0: "r0 = Inl e0" and c: "code e0 = code e"
        by (cases r0) (simp_all add: outcome_rel_def)
      from worker_loop_sim [OF catch_block_sim [OF rel c]] AwaitA Inl w0 r0 show ?thesis
        by (simp add: resume0_def resume_def)
    next
      case (Inr x)
      with o have r0: "r0 = Inr (fst x)"
        by (cases r0) (simp_all add: outcome_rel_def)
      show ?thesis
      proof (cases "mode env = ''sequential''")
        case True
        let ?sb = "s\<lparr>callDurations := callDurations s @ [snd x]\<rparr>"
        from rel have "state_rel s0 ?sb" by (simp add: state_rel_def)
        from runOnce_sim [OF this, of env a w i
          "variant_name (variant a) @ '' i='' @ string_of_nat i @ '' #2''"]
        show ?thesis
          using AwaitA Inr w0 r0 True
          by (simp add: resume0_def resume_def state_rel_def list_all2_update_cong
              case_prod_beta Let_def)
      next
        case False
        let ?sa = "s0\<lparr>ok0 := Suc (ok0 s0), history0 := history0 s0 @ [CountOk w i]\<rparr>"
        let ?sb = "s\<lparr>callDurations := callDurations s @ [snd x], ok := Suc (ok s),
          history := history s @ [CountOk w i]\<rparr>"
        from rel have "state_rel ?sa ?sb" by (simp add: state_rel_def)
        from worker_loop_sim [OF this] AwaitA Inr w0 r0 False show ?thesis
          by (simp add: resume0_def resume_def)
      qed
    qed
  next
    case (AwaitB i x r)
    with wr obtain r0 where w0: "workers0 s0 ! w = Await2 i (fst x) r0" and o: "outcome_rel r0 r"
      by (cases "workers0 s0 ! w") simp_all
    show ?thesis
    proof (cases r)
      case (Inl e)
      with o obtain e0 where r0: "r0 = Inl e0" and c: "code e0 = code e"
        by (cases r0) (simp_all add: outcome_rel_def)
      from worker_loop_sim [OF catch_block_sim [OF rel c]] AwaitB Inl w0 r0 show ?thesis
        by (simp add: resume0_def resume_def)
    next
      case (Inr y)
      with o have r0: "r0 = Inr (fst y)"
        by (cases r0) (simp_all add: outcome_rel_def)
      show ?thesis
      proof (cases "fst x = fst y")
        case True
        let ?sa = "s0\<lparr>ok0 := Suc (ok0 s0), history0 := history0 s0 @ [CountOk w i]\<rparr>"
        let ?sb = "s\<lparr>callDurations := callDurations s @ [snd y], ok := Suc (ok s),
          history := history s @ [CountOk w i]\<rparr>"
        from rel have "state_rel ?sa ?sb" by (simp add: state_rel_def)
        from worker_loop_sim [OF this] AwaitB Inr w0 r0 True show ?thesis
          by (simp add: resume0_def resume_def)
      next
        case False
        let ?m = "Mismatch i (take 16 (toString_hex (fst x))) (take 16 (toString_hex (fst y)))"
        let ?sa = "s0\<lparr>fail0 := Suc (fail0 s0), errors0 := errors0 s0 @ [?m],
          history0 := history0 s0 @ [CountFail w i]\<rparr>"
        let ?sb = "s\<lparr>callDurations := callDurations s @ [snd y], fail := Suc (fail s),
          errors := errors s @ [?m], history := history s @ [CountFail w i]\<rparr>"
        from rel have "state_rel ?sa ?sb" by (simp add: state_rel_def list_all2_appendI)
        from worker_loop_sim [OF this] AwaitB Inr w0 r0 False show ?thesis
          by (simp add: resume0_def resume_def)
      qed
    qed
  qed
qed

lemma suspended_sim:
  assumes "state_rel s0 s"
  shows "suspended0 s0 = suspended s"
proof -
  from assms have ws: "list_all2 worker_rel (workers0 s0) (workers s)"
    by (simp add: state_rel_def)
  then have len: "length (workers0 s0) = length (workers s)"
    by (rule list_all2_lengthD)
  have "(workers0 s0 ! v \<noteq> Finished0) = (workers s ! v \<noteq> Finished)" if "v < length (workers s)" for v
  proof -
    from ws that have "worker_rel (workers0 s0 ! v) (workers s ! v)"
      by (simp add: list_all2_nthD2)
    then show ?thesis
      by (cases "workers0 s0 ! v"; cases "workers s ! v") simp_all
  qed
  then show ?thesis
    unfolding suspended0_def suspended_def len
    by (intro filter_cong) simp_all
qed

lemma run_sim:
  "state_rel s0 s \<Longrightarrow> rel_option state_rel (run0 env a sched s0) (run env a sched s)"
proof (induction sched arbitrary: s0 s)
  case Nil
  then show ?case by (simp add: suspended_sim)
next
  case (Cons c cs)
  show ?case
  proof (cases "suspended s = []")
    case True
    with Cons.prems show ?thesis by (simp add: suspended_sim)
  next
    case False
    let ?w = "suspended s ! (c mod length (suspended s))"
    from suspended_pick [OF False, of c] have "?w < length (workers s)" by simp
    from Cons.IH [OF resume_sim [OF Cons.prems this]] False Cons.prems show ?thesis
      by (simp add: suspended_sim)
  qed
qed

lemma spawn_sim:
  assumes "state_rel s0 s"
  shows "state_rel (spawn0 env a s0 w) (spawn env a s w)"
proof -
  from assms have "state_rel (s0\<lparr>workers0 := workers0 s0 @ [Finished0]\<rparr>)
      (s\<lparr>workers := workers s @ [Finished]\<rparr>)"
    by (simp add: state_rel_def list_all2_appendI)
  then show ?thesis
    unfolding spawn0_def spawn_def by (rule worker_loop_sim)
qed

lemma start_sim: "state_rel (start0 env a t0) (start env a t0)"
proof -
  have "state_rel (foldl (spawn0 env a) (init0 a t0) ws) (foldl (spawn env a) (init a t0) ws)" for ws
  proof (induction ws rule: rev_induct)
    case Nil
    show ?case by (simp add: state_rel_def init0_def init_def)
  next
    case (snoc w ws)
    then show ?case by (simp add: spawn_sim)
  qed
  then show ?thesis by (simp add: start0_def start_def)
qed

lemma record_rel_key:
  "list_all2 record_rel es0 es \<Longrightarrow>
   map record_type es0 = map record_type es \<and> map record_index es0 = map record_index es"
proof (induction rule: list_all2_induct)
  case Nil
  show ?case by simp
next
  case (Cons e0 es0 e es)
  from Cons(1) have "record_type e0 = record_type e \<and> record_index e0 = record_index e"
    by (cases e0; cases e) (simp_all add: record_type_def record_index_def)
  with Cons show ?case by simp
qed

lemma run0_some_iff:
  "(\<exists>s0. run0 env a sched (start0 env a t0) = Some s0) = (\<exists>s. run env a sched (start env a t0) = Some s)"
  using run_sim [OF start_sim [of env a t0], of env a sched]
  by (cases rule: option.rel_cases) simp_all

lemma run0_related:
  assumes "run0 env a sched (start0 env a t0) = Some s0"
  shows "\<exists>s. run env a sched (start env a t0) = Some s \<and> state_rel s0 s"
  using run_sim [OF start_sim [of env a t0], of env a sched] assms
  by (cases rule: option.rel_cases) simp_all

lemma runBatch_total:
  assumes "2 * iterations a \<le> length sched"
  shows "\<exists>r. runBatch env a t0 sched = Some r"
proof -
  from start_facts [of a env t0] assms have "work (start env a t0) \<le> length sched" by simp
  from run_total [OF this, of env a] show ?thesis by (auto simp: runBatch_def)
qed

lemma runBatch0_total:
  assumes "2 * iterations a \<le> length sched"
  shows "\<exists>r. runBatch0 env a t0 sched = Some r"
proof -
  from start_facts [of a env t0] assms have "work (start env a t0) \<le> length sched" by simp
  from run_total [OF this, of env a] run0_some_iff [of env a sched t0]
  show ?thesis by (auto simp: runBatch0_def)
qed

lemma worker_loop0_fields:
  "ok0 (worker_loop0 env a w st) = ok0 st \<and> fail0 (worker_loop0 env a w st) = fail0 st \<and>
   errors0 (worker_loop0 env a w st) = errors0 st \<and>
   queue0 (worker_loop0 env a w st) = butlast (queue0 st) \<and>
   (\<forall>v. v \<noteq> w \<longrightarrow> workers0 (worker_loop0 env a w st) ! v = workers0 st ! v) \<and>
   (w < length (workers0 st) \<longrightarrow>
     (queue0 st = [] \<longrightarrow> workers0 (worker_loop0 env a w st) ! w = Finished0) \<and>
     (queue0 st \<noteq> [] \<longrightarrow>
        (\<exists>r. workers0 (worker_loop0 env a w st) ! w = Await1 (last (queue0 st)) r)))"
  by (simp add: worker_loop0_def runOnce0_def Let_def case_prod_beta)

lemma runOnce_outcome:
  "\<exists>q. fst (runOnce env a w i st) =
     (case withTimeout q 60000 (variant_name (variant a) @ '' i='' @ string_of_nat i) of
        Inl e \<Rightarrow> Inl e | Inr k \<Rightarrow> Inr (k, settle_delay q)) \<and>
     history (snd (runOnce env a w i st)) = history st @ [Invoke w i (invocations st) q]"
  by (simp add: runOnce_def Let_def case_prod_beta)

subsection \<open>Single turns\<close>

text \<open>
  The turn that finds a mismatch: the first sample was appended when the first call
  returned, the second is appended before the comparison, then \<open>fail\<close> is counted and
  the record appended.
\<close>

lemma mismatch_turn:
  "(mode env = ''sequential'' \<and> w < length (workers st) \<and> workers st ! w = AwaitA i (Inr x) \<longrightarrow>
      callDurations (resume env a w st) = callDurations st @ [snd x] \<and>
      ok (resume env a w st) = ok st \<and> fail (resume env a w st) = fail st \<and>
      errors (resume env a w st) = errors st \<and>
      (\<exists>r. workers (resume env a w st) ! w = AwaitB i x r)) \<and>
   (workers st' ! w = AwaitB i x (Inr y) \<and> fst x \<noteq> fst y \<longrightarrow>
      fail (resume env a w st') = Suc (fail st') \<and> ok (resume env a w st') = ok st' \<and>
      errors (resume env a w st') =
        errors st' @ [Mismatch i (take 16 (toString_hex (fst x))) (take 16 (toString_hex (fst y)))] \<and>
      callDurations (resume env a w st') = callDurations st' @ [snd y]) \<and>
   (workers0 s0 ! w = Await2 i dk1 (Inr dk2) \<and> dk1 \<noteq> dk2 \<longrightarrow>
      fail0 (resume0 env a w s0) = Suc (fail0 s0) \<and> ok0 (resume0 env a w s0) = ok0 s0 \<and>
      errors0 (resume0 env a w s0) =
        errors0 s0 @ [Mismatch i (take 16 (toString_hex dk1)) (take 16 (toString_hex dk2))])"
proof (intro conjI impI)
  assume h: "mode env = ''sequential'' \<and> w < length (workers st) \<and> workers st ! w = AwaitA i (Inr x)"
  let ?st = "st\<lparr>callDurations := callDurations st @ [snd x]\<rparr>"
  from h have r: "resume env a w st =
      (snd (runOnce env a w i ?st))\<lparr>workers :=
        (workers (snd (runOnce env a w i ?st)))[w := AwaitB i x (fst (runOnce env a w i ?st))]\<rparr>"
    by (simp add: resume_def Let_def case_prod_beta)
  from runOnce_fields [of env a w i ?st] h
  show "callDurations (resume env a w st) = callDurations st @ [snd x]"
    "ok (resume env a w st) = ok st" "fail (resume env a w st) = fail st"
    "errors (resume env a w st) = errors st"
    "\<exists>r. workers (resume env a w st) ! w = AwaitB i x r"
    by (simp_all add: r)
next
  assume h: "workers st' ! w = AwaitB i x (Inr y) \<and> fst x \<noteq> fst y"
  then show "fail (resume env a w st') = Suc (fail st')" "ok (resume env a w st') = ok st'"
    "errors (resume env a w st') =
        errors st' @ [Mismatch i (take 16 (toString_hex (fst x))) (take 16 (toString_hex (fst y)))]"
    "callDurations (resume env a w st') = callDurations st' @ [snd y]"
    by (simp_all add: resume_def Let_def worker_loop_fields)
next
  assume h: "workers0 s0 ! w = Await2 i dk1 (Inr dk2) \<and> dk1 \<noteq> dk2"
  then show "fail0 (resume0 env a w s0) = Suc (fail0 s0)" "ok0 (resume0 env a w s0) = ok0 s0"
    "errors0 (resume0 env a w s0) =
        errors0 s0 @ [Mismatch i (take 16 (toString_hex dk1)) (take 16 (toString_hex dk2))]"
    by (simp_all add: resume0_def worker_loop0_fields)
qed

text \<open>
  The turn that finds a rejected or timed-out call: it goes through the \<open>catch\<close>
  block and on to the next index, and leaves the other workers alone.
\<close>

lemma failure_turn:
  assumes "w < length (workers st)"
    and "workers st ! w = AwaitA i (Inl e) \<or> workers st ! w = AwaitB i x (Inl e)"
    and "w < length (workers0 s0)"
    and "workers0 s0 ! w = Await1 i (Inl e) \<or> workers0 s0 ! w = Await2 i dk1 (Inl e)"
  shows "fail (resume env a w st) = Suc (fail st) \<and> ok (resume env a w st) = ok st \<and>
         errors (resume env a w st) = errors st @ [Error i (message e) (code e)] \<and>
         callDurations (resume env a w st) = callDurations st \<and>
         queue (resume env a w st) = butlast (queue st) \<and>
         (if queue st = [] then workers (resume env a w st) ! w = Finished
          else \<exists>r. workers (resume env a w st) ! w = AwaitA (last (queue st)) r) \<and>
         (\<forall>v. v \<noteq> w \<longrightarrow> workers (resume env a w st) ! v = workers st ! v) \<and>
         fail0 (resume0 env a w s0) = Suc (fail0 s0) \<and> ok0 (resume0 env a w s0) = ok0 s0 \<and>
         errors0 (resume0 env a w s0) = errors0 s0 @ [Error i (message e) (code e)] \<and>
         queue0 (resume0 env a w s0) = butlast (queue0 s0) \<and>
         (if queue0 s0 = [] then workers0 (resume0 env a w s0) ! w = Finished0
          else \<exists>r. workers0 (resume0 env a w s0) ! w = Await1 (last (queue0 s0)) r) \<and>
         (\<forall>v. v \<noteq> w \<longrightarrow> workers0 (resume0 env a w s0) ! v = workers0 s0 ! v) \<and>
         (2 * iterations a \<le> length sched \<longrightarrow>
            (\<exists>r. runBatch env a t0 sched = Some r) \<and> (\<exists>r. runBatch0 env a t0 sched = Some r))"
proof -
  from assms(2) have r: "resume env a w st = worker_loop env a w (catch_block w i e st)"
    by (auto simp: resume_def)
  have w: "w < length (workers (catch_block w i e st))"
    using assms(1) by (simp add: catch_block_def)
  from assms(4) have r0: "resume0 env a w s0 = worker_loop0 env a w (catch_block0 w i e s0)"
    by (auto simp: resume0_def)
  have w0: "w < length (workers0 (catch_block0 w i e s0))"
    using assms(3) by (simp add: catch_block0_def)
  have v2: "fail (resume env a w st) = Suc (fail st) \<and> ok (resume env a w st) = ok st \<and>
         errors (resume env a w st) = errors st @ [Error i (message e) (code e)] \<and>
         callDurations (resume env a w st) = callDurations st \<and>
         queue (resume env a w st) = butlast (queue st) \<and>
         (if queue st = [] then workers (resume env a w st) ! w = Finished
          else \<exists>r. workers (resume env a w st) ! w = AwaitA (last (queue st)) r) \<and>
         (\<forall>v. v \<noteq> w \<longrightarrow> workers (resume env a w st) ! v = workers st ! v)"
    using worker_loop_fields [of env a w "catch_block w i e st"]
      worker_loop_next [OF w, of env a]
    by (simp add: r catch_block_def)
  have v1: "fail0 (resume0 env a w s0) = Suc (fail0 s0) \<and> ok0 (resume0 env a w s0) = ok0 s0 \<and>
         errors0 (resume0 env a w s0) = errors0 s0 @ [Error i (message e) (code e)] \<and>
         queue0 (resume0 env a w s0) = butlast (queue0 s0) \<and>
         (if queue0 s0 = [] then workers0 (resume0 env a w s0) ! w = Finished0
          else \<exists>r. workers0 (resume0 env a w s0) ! w = Await1 (last (queue0 s0)) r) \<and>
         (\<forall>v. v \<noteq> w \<longrightarrow> workers0 (resume0 env a w s0) ! v = workers0 s0 ! v)"
    using worker_loop0_fields [of env a w "catch_block0 w i e s0"] w0
    by (simp add: r0 catch_block0_def)
  from v2 v1 runBatch_total [of a sched env t0] runBatch0_total [of a sched env t0]
  show ?thesis by blast
qed

subsection \<open>Index by index\<close>

lemma calls_of_append: "calls_of i (xs @ ys) = calls_of i xs @ calls_of i ys"
  by (induction i xs rule: calls_of.induct) simp_all

lemma errors_of_append: "errors_of i (xs @ ys) = errors_of i xs @ errors_of i ys"
  by (simp add: errors_of_def)

lemma runOnce_guarded:
  "\<exists>q t. runOnce env a w i st =
      (guarded a i q, st\<lparr>rand_t := t, invocations := Suc (invocations st),
             history := history st @ [Invoke w i (invocations st) q]\<rparr>)"
proof -
  obtain pwd salt t where m: "mkInput (mode env) i (rand_t st) = ((pwd, salt), t)"
    by (metis prod.exhaust)
  let ?q = "variants (variant a) (scrypt env (invocations st)) pwd salt (keyLen a) (opts a)"
  show ?thesis
    using m by (intro exI [of _ ?q] exI [of _ t]) (simp add: runOnce_def guarded_def Let_def)
qed

lemma worker_loop_pop_guarded:
  assumes "queue st \<noteq> []"
  shows "\<exists>q t. worker_loop env a w st =
      st\<lparr>queue := butlast (queue st), rand_t := t, invocations := Suc (invocations st),
         history := history st @ [Pop w (last (queue st)), Invoke w (last (queue st)) (invocations st) q],
         workers := (workers st)[w := AwaitA (last (queue st)) (guarded a (last (queue st)) q)]\<rparr>"
proof -
  let ?st = "st\<lparr>queue := butlast (queue st), history := history st @ [Pop w (last (queue st))]\<rparr>"
  obtain q t where "runOnce env a w (last (queue st)) ?st =
      (guarded a (last (queue st)) q, ?st\<lparr>rand_t := t, invocations := Suc (invocations ?st),
             history := history ?st @ [Invoke w (last (queue st)) (invocations ?st) q]\<rparr>)"
    using runOnce_guarded [of env a w "last (queue st)" ?st] by blast
  with assms show ?thesis
    by (intro exI [of _ q] exI [of _ t]) (simp add: worker_loop_def Let_def)
qed

lemma popped_distinct:
  assumes "counters_inv a ws st"
  shows "distinct (queue st @ popped (history st))"
proof -
  from assms have "mset (queue st @ popped (history st)) = mset [0..<iterations a]"
    by (simp add: counters_inv_def)
  then have "distinct (queue st @ popped (history st)) = distinct [0..<iterations a]"
    by (rule mset_eq_imp_distinct_iff)
  then show ?thesis by simp
qed

lemma last_queue_fresh:
  assumes "counters_inv a ws st" and "queue st \<noteq> []"
  shows "last (queue st) \<notin> set (popped (history st))"
proof -
  from assms(2) have "last (queue st) \<in> set (queue st)" by simp
  moreover from popped_distinct [OF assms(1)]
  have "set (queue st) \<inter> set (popped (history st)) = {}" by simp
  ultimately show ?thesis by blast
qed

lemma held_is_popped_not_counted:
  assumes c: "counters_inv a ws st" and w: "w < length ws" and h: "holding (ws ! w) = [i]"
  shows "i \<in> set (popped (history st)) \<and> i \<notin> set (oks (history st)) \<and>
         i \<notin> set (fails (history st))"
proof -
  let ?B = "holding_sum (ws[w := Finished])"
  from holding_sum_split [OF w] h have hs: "holding_sum ws = ?B + {#i#}" by simp
  from c have e: "mset (popped (history st)) =
      mset (oks (history st)) + mset (fails (history st)) + holding_sum ws"
    by (simp add: counters_inv_def)
  from popped_distinct [OF c] have d: "distinct (popped (history st))" by simp
  then have le: "count (mset (popped (history st))) i \<le> 1"
    by (simp add: distinct_count_atmost_1)
  have eq: "count (mset (popped (history st))) i =
      count (mset (oks (history st))) i + count (mset (fails (history st))) i + count ?B i + 1"
    by (simp add: e hs)
  from le eq have z: "count (mset (oks (history st))) i = 0"
    "count (mset (fails (history st))) i = 0" "count (mset (popped (history st))) i = 1"
    by simp_all
  from z(3) have "i \<in># mset (popped (history st))"
    by (intro count_inI) simp
  then have "i \<in> set (popped (history st))" by simp
  moreover from z(1,2) have "i \<notin> set (oks (history st))" "i \<notin> set (fails (history st))"
    by (simp_all add: count_eq_zero_iff)
  ultimately show ?thesis by simp
qed

lemma holders_differ:
  assumes c: "counters_inv a ws st" and w: "w < length ws" and v: "v < length ws" and n: "v \<noteq> w"
    and hw: "holding (ws ! w) = [i]" and hv: "holding (ws ! v) = [j]"
  shows "i \<noteq> j"
proof
  assume ij: "i = j"
  let ?ws = "ws[w := Finished]"
  let ?B = "holding_sum (?ws[v := Finished])"
  from holding_sum_split [OF w] hw have 1: "holding_sum ws = holding_sum ?ws + {#i#}" by simp
  from v have v': "v < length ?ws" by simp
  from holding_sum_split [OF v'] hv n have 2: "holding_sum ?ws = ?B + {#j#}" by simp
  from c have e: "mset (popped (history st)) =
      mset (oks (history st)) + mset (fails (history st)) + holding_sum ws"
    by (simp add: counters_inv_def)
  from popped_distinct [OF c] have "distinct (popped (history st))" by simp
  then have le: "count (mset (popped (history st))) i \<le> 1"
    by (simp add: distinct_count_atmost_1)
  have "count (mset (popped (history st))) i =
      count (mset (oks (history st))) i + count (mset (fails (history st))) i + count ?B i + 2"
    by (simp add: e 1 2 ij)
  with le show False by simp
qed

lemma verdict_nonempty: "verdict env a i qs = Some v \<Longrightarrow> qs \<noteq> []"
  by (cases qs) simp_all

lemma held_calls_nonempty:
  "held_ok env a h es k \<Longrightarrow> holding k = [j] \<Longrightarrow> calls_of j h \<noteq> [] \<and> errors_of j es = []"
  by (cases k) (auto simp: held_ok_def holding_def)

lemma errors_of_same_index:
  "\<forall>e \<in> set E. record_index e = i \<Longrightarrow> errors_of j E = (if j = i then E else [])"
  by (auto simp: errors_of_def filter_empty_conv filter_id_conv)

lemma tasks_core_counted:
  "tasks_core env a st \<Longrightarrow> j \<in> set (oks (history st)) \<union> set (fails (history st)) \<Longrightarrow>
   verdict env a j (calls_of j (history st)) =
     Some (j \<in> set (oks (history st)), errors_of j (errors st))"
  unfolding tasks_core_def by blast

lemma tasks_core_unpopped:
  "tasks_core env a st \<Longrightarrow> j \<notin> set (popped (history st)) \<Longrightarrow>
   calls_of j (history st) = [] \<and> errors_of j (errors st) = []"
  unfolding tasks_core_def by blast

lemma worker_loop_tasks:
  assumes t: "tasks_turn env a w st" and c: "counters_inv a ws st" and w: "w < length (workers st)"
  shows "tasks_inv env a (worker_loop env a w st)"
proof (cases "queue st = []")
  case True
  have "held_ok env a (history st) (errors st) ((workers st)[w := Finished] ! v)"
    if "v < length (workers st)" for v
  proof (cases "v = w")
    case True
    with that show ?thesis by (simp add: held_ok_def)
  next
    case False
    with t that show ?thesis by (simp add: tasks_turn_def)
  qed
  with t True show ?thesis
    by (simp add: worker_loop_empty tasks_inv_def tasks_turn_def tasks_core_def)
next
  case False
  let ?i = "last (queue st)"
  obtain q t' where eq: "worker_loop env a w st =
      st\<lparr>queue := butlast (queue st), rand_t := t', invocations := Suc (invocations st),
         history := history st @ [Pop w ?i, Invoke w ?i (invocations st) q],
         workers := (workers st)[w := AwaitA ?i (guarded a ?i q)]\<rparr>"
    using worker_loop_pop_guarded [OF False, of env a w] by blast
  let ?h = "history st @ [Pop w ?i, Invoke w ?i (invocations st) q]"
  from t have core: "tasks_core env a st" by (simp add: tasks_turn_def)
  have fresh: "?i \<notin> set (popped (history st))"
    using c False by (rule last_queue_fresh)
  with tasks_core_unpopped [OF core] have new: "calls_of ?i (history st) = []"
    "errors_of ?i (errors st) = []"
    by simp_all
  have calls: "calls_of j ?h = (if j = ?i then [q] else calls_of j (history st))" for j
    using new by (simp add: calls_of_append)
  have keep: "calls_of j ?h = calls_of j (history st)" if "calls_of j (history st) \<noteq> []" for j
    using that new calls by auto
  have held: "held_ok env a ?h (errors st) ((workers st)[w := AwaitA ?i (guarded a ?i q)] ! v)"
    if v: "v < length (workers st)" for v
  proof (cases "v = w")
    case True
    with w new calls show ?thesis by (simp add: held_ok_def)
  next
    case False
    with t v have h: "held_ok env a (history st) (errors st) (workers st ! v)"
      by (simp add: tasks_turn_def)
    show ?thesis
    proof (cases "workers st ! v")
      case Finished
      with False show ?thesis by (simp add: held_ok_def)
    next
      case (AwaitA j r)
      with h have "calls_of j (history st) \<noteq> []" by (auto simp: held_ok_def)
      from keep [OF this] h AwaitA False show ?thesis by (simp add: held_ok_def)
    next
      case (AwaitB j x r)
      with h have "calls_of j (history st) \<noteq> []" by (auto simp: held_ok_def)
      from keep [OF this] h AwaitB False show ?thesis by (simp add: held_ok_def)
    qed
  qed
  have q1: "calls_of j ?h = [] \<and> errors_of j (errors st) = []" if "j \<notin> set (popped ?h)" for j
  proof -
    from that have "j \<noteq> ?i" "j \<notin> set (popped (history st))"
      by (simp_all add: popped_append)
    with tasks_core_unpopped [OF core, of j] calls show ?thesis by simp
  qed
  have d1: "verdict env a j (calls_of j ?h) = Some (j \<in> set (oks ?h), errors_of j (errors st))"
    if "j \<in> set (oks ?h) \<union> set (fails ?h)" for j
  proof -
    from that have j: "j \<in> set (oks (history st)) \<union> set (fails (history st))"
      by (simp add: oks_append fails_append)
    with core have v: "verdict env a j (calls_of j (history st)) =
        Some (j \<in> set (oks (history st)), errors_of j (errors st))"
      by (rule tasks_core_counted)
    from verdict_nonempty [OF this] have "calls_of j ?h = calls_of j (history st)"
      by (rule keep)
    with v show ?thesis by (simp add: oks_append)
  qed
  from held q1 d1 show ?thesis
    by (simp add: eq tasks_inv_def tasks_core_def)
qed

lemma count_tasks:
  assumes t: "tasks_inv env a st" and c: "counters_inv a (workers st) st"
    and w: "w < length (workers st)" and hold: "holding (workers st ! w) = [i]"
    and h': "history st' = history st @ [if b then CountOk w i else CountFail w i]"
    and e': "errors st' = errors st @ E" and ws': "workers st' = workers st"
    and E: "\<forall>e \<in> set E. record_index e = i"
    and v: "verdict env a i (calls_of i (history st)) = Some (b, E)"
  shows "tasks_turn env a w st'"
proof -
  from t have core: "tasks_core env a st" by (simp add: tasks_inv_def)
  from t w have hw: "held_ok env a (history st) (errors st) (workers st ! w)"
    by (simp add: tasks_inv_def)
  from held_calls_nonempty [OF hw hold] have noerr: "errors_of i (errors st) = []" by simp
  from held_is_popped_not_counted [OF c w hold]
  have pi: "i \<in> set (popped (history st))" and ni: "i \<notin> set (oks (history st))"
    "i \<notin> set (fails (history st))" by simp_all
  have calls: "calls_of j (history st') = calls_of j (history st)" for j
    by (simp add: h' calls_of_append)
  have errs: "errors_of j (errors st') = (if j = i then E else errors_of j (errors st))" for j
    using errors_of_same_index [OF E, of j] noerr by (simp add: e' errors_of_append)
  have pop: "popped (history st') = popped (history st)"
    by (simp add: h' popped_append)
  have oks': "set (oks (history st')) = set (oks (history st)) \<union> (if b then {i} else {})"
    and fails': "set (fails (history st')) = set (fails (history st)) \<union> (if b then {} else {i})"
    by (simp_all add: h' oks_append fails_append)
  have held: "held_ok env a (history st') (errors st') (workers st' ! u)"
    if u: "u < length (workers st')" and n: "u \<noteq> w" for u
  proof -
    from t u have hu: "held_ok env a (history st) (errors st) (workers st ! u)"
      by (simp add: tasks_inv_def ws')
    show ?thesis
    proof (cases "workers st ! u")
      case Finished
      then show ?thesis by (simp add: ws' held_ok_def)
    next
      case (AwaitA j r)
      with holders_differ [OF c w _ n hold, of j] u have "j \<noteq> i"
        by (auto simp: ws' holding_def)
      with hu AwaitA show ?thesis by (simp add: ws' held_ok_def calls errs)
    next
      case (AwaitB j x r)
      with holders_differ [OF c w _ n hold, of j] u have "j \<noteq> i"
        by (auto simp: ws' holding_def)
      with hu AwaitB show ?thesis by (simp add: ws' held_ok_def calls errs)
    qed
  qed
  have q1: "calls_of j (history st') = [] \<and> errors_of j (errors st') = []"
    if "j \<notin> set (popped (history st'))" for j
  proof -
    from that pi have "j \<noteq> i" "j \<notin> set (popped (history st))" by (auto simp: pop)
    with tasks_core_unpopped [OF core, of j] show ?thesis by (simp add: calls errs)
  qed
  have d1: "verdict env a j (calls_of j (history st')) =
      Some (j \<in> set (oks (history st')), errors_of j (errors st'))"
    if j: "j \<in> set (oks (history st')) \<union> set (fails (history st'))" for j
  proof (cases "j = i")
    case True
    with v ni show ?thesis
      by (simp add: calls errs oks')
  next
    case False
    with j have "j \<in> set (oks (history st)) \<union> set (fails (history st))"
      by (auto simp: oks' fails' split: if_splits)
    from tasks_core_counted [OF core this] False show ?thesis
      by (simp add: calls errs oks')
  qed
  from held q1 d1 show ?thesis
    by (simp add: tasks_turn_def tasks_core_def)
qed

lemma second_call_tasks:
  assumes t: "tasks_inv env a st" and c: "counters_inv a (workers st) st"
    and w: "w < length (workers st)" and at: "workers st ! w = AwaitA i (Inr x)"
    and seq: "mode env = ''sequential''"
    and h': "history st' = history st @ [Invoke w i n q]"
    and e': "errors st' = errors st" and ws': "workers st' = (workers st)[w := AwaitB i x (guarded a i q)]"
  shows "tasks_inv env a st'"
proof -
  from t have core: "tasks_core env a st" by (simp add: tasks_inv_def)
  from t w have hw: "held_ok env a (history st) (errors st) (workers st ! w)"
    by (simp add: tasks_inv_def)
  from at have hold: "holding (workers st ! w) = [i]" by (simp add: holding_def)
  from hw at obtain q1 where q1: "calls_of i (history st) = [q1]" "guarded a i q1 = Inr x"
    and noerr: "errors_of i (errors st) = []"
    by (auto simp: held_ok_def)
  from held_is_popped_not_counted [OF c w hold]
  have pi: "i \<in> set (popped (history st))" and ni: "i \<notin> set (oks (history st))"
    "i \<notin> set (fails (history st))" by simp_all
  have calls: "calls_of j (history st') = (if j = i then [q1, q] else calls_of j (history st))" for j
    using q1 by (simp add: h' calls_of_append)
  have held: "held_ok env a (history st') (errors st') (workers st' ! u)"
    if u: "u < length (workers st')" for u
  proof (cases "u = w")
    case True
    with w q1 noerr seq show ?thesis by (simp add: ws' e' held_ok_def calls)
  next
    case False
    from t u have hu: "held_ok env a (history st) (errors st) (workers st ! u)"
      by (simp add: tasks_inv_def ws')
    show ?thesis
    proof (cases "workers st ! u")
      case Finished
      with False show ?thesis by (simp add: ws' held_ok_def)
    next
      case (AwaitA j r)
      with holders_differ [OF c w _ False hold, of j] u have "j \<noteq> i"
        by (auto simp: ws' holding_def)
      with hu AwaitA False show ?thesis by (simp add: ws' e' held_ok_def calls)
    next
      case (AwaitB j y r)
      with holders_differ [OF c w _ False hold, of j] u have "j \<noteq> i"
        by (auto simp: ws' holding_def)
      with hu AwaitB False show ?thesis by (simp add: ws' e' held_ok_def calls)
    qed
  qed
  have pop: "popped (history st') = popped (history st)" "oks (history st') = oks (history st)"
    "fails (history st') = fails (history st)"
    by (simp_all add: h' popped_append oks_append fails_append)
  have q0: "calls_of j (history st') = [] \<and> errors_of j (errors st') = []"
    if "j \<notin> set (popped (history st'))" for j
  proof -
    from that pi have "j \<noteq> i" "j \<notin> set (popped (history st))" by (auto simp: pop)
    with tasks_core_unpopped [OF core, of j] show ?thesis by (simp add: calls e')
  qed
  have d1: "verdict env a j (calls_of j (history st')) =
      Some (j \<in> set (oks (history st')), errors_of j (errors st'))"
    if j: "j \<in> set (oks (history st')) \<union> set (fails (history st'))" for j
  proof -
    from j ni have "j \<noteq> i" by (auto simp: pop)
    moreover from j have "j \<in> set (oks (history st)) \<union> set (fails (history st))"
      by (simp add: pop)
    ultimately show ?thesis
      using tasks_core_counted [OF core, of j] by (simp add: calls e' pop)
  qed
  from held q0 d1 show ?thesis
    by (simp add: tasks_inv_def tasks_core_def)
qed

lemma finish_tasks:
  assumes t: "tasks_inv env a st" and inv: "batch_inv a st"
    and w: "w < length (workers st)" and hold: "holding (workers st ! w) = [i]"
    and h': "history st' = history st @ [if b then CountOk w i else CountFail w i]"
    and e': "errors st' = errors st @ E" and ws': "workers st' = workers st"
    and E: "\<forall>e \<in> set E. record_index e = i"
    and v: "verdict env a i (calls_of i (history st)) = Some (b, E)"
    and ti: "turn_inv a w st'"
  shows "tasks_inv env a (worker_loop env a w st')"
proof -
  from inv have c: "counters_inv a (workers st) st" by (simp add: batch_inv_def)
  have "tasks_turn env a w st'"
    by (rule count_tasks [OF t c w hold h' e' ws' E v])
  moreover from ti have "counters_inv a ((workers st')[w := Finished]) st'"
    by (simp add: turn_inv_def)
  moreover from w have "w < length (workers st')" by (simp add: ws')
  ultimately show ?thesis by (rule worker_loop_tasks)
qed

lemma resume_tasks:
  assumes t: "tasks_inv env a st" and inv: "batch_inv a st" and w: "w < length (workers st)"
  shows "tasks_inv env a (resume env a w st)"
proof (cases "workers st ! w")
  case Finished
  with t show ?thesis by (simp add: resume_def)
next
  case (AwaitA i r)
  from t w have "held_ok env a (history st) (errors st) (workers st ! w)"
    by (simp add: tasks_inv_def)
  with AwaitA obtain q where q: "calls_of i (history st) = [q]" "guarded a i q = r"
    by (auto simp: held_ok_def)
  from AwaitA have hold: "holding (workers st ! w) = [i]" by (simp add: holding_def)
  show ?thesis
  proof (cases r)
    case (Inl e)
    let ?E = "[Error i (message e) (code e)]"
    have ti: "turn_inv a w (catch_block w i e st)"
      using count_fail_turn [OF inv w, of i "[]" "errors st @ ?E"] AwaitA Inl
      by (simp add: catch_block_def holding_def awaited_sample_def)
    have "tasks_inv env a (worker_loop env a w (catch_block w i e st))"
    proof (rule finish_tasks [OF t inv w hold _ _ _ _ _ ti, of False ?E])
      show "verdict env a i (calls_of i (history st)) = Some (False, ?E)"
        using q Inl by simp
    qed (simp_all add: catch_block_def record_index_def)
    with AwaitA Inl show ?thesis by (simp add: resume_def)
  next
    case (Inr x)
    show ?thesis
    proof (cases "mode env = ''sequential''")
      case True
      let ?st = "st\<lparr>callDurations := callDurations st @ [snd x]\<rparr>"
      obtain q2 t' where run: "runOnce env a w i ?st =
          (guarded a i q2, ?st\<lparr>rand_t := t', invocations := Suc (invocations ?st),
             history := history ?st @ [Invoke w i (invocations ?st) q2]\<rparr>)"
        using runOnce_guarded [of env a w i ?st] by blast
      let ?st' = "st\<lparr>callDurations := callDurations st @ [snd x], rand_t := t',
          invocations := Suc (invocations st),
          history := history st @ [Invoke w i (invocations st) q2],
          workers := (workers st)[w := AwaitB i x (guarded a i q2)]\<rparr>"
      from inv have c: "counters_inv a (workers st) st" by (simp add: batch_inv_def)
      have "tasks_inv env a ?st'"
        using AwaitA Inr
        by (intro second_call_tasks [OF t c w _ True, of i x _ "invocations st" q2]) simp_all
      with AwaitA Inr True run show ?thesis by (simp add: resume_def)
    next
      case False
      let ?st' = "st\<lparr>callDurations := callDurations st @ [snd x], ok := Suc (ok st),
           history := history st @ [CountOk w i]\<rparr>"
      have ti: "turn_inv a w ?st'"
        using count_ok_turn [OF inv w, of i "[snd x]"] AwaitA Inr
        by (simp add: holding_def awaited_sample_def)
      have "tasks_inv env a (worker_loop env a w ?st')"
      proof (rule finish_tasks [OF t inv w hold _ _ _ _ _ ti, of True "[]"])
        show "verdict env a i (calls_of i (history st)) = Some (True, [])"
          using q Inr False by simp
      qed simp_all
      with AwaitA Inr False show ?thesis by (simp add: resume_def)
    qed
  qed
next
  case (AwaitB i x r)
  from t w have "held_ok env a (history st) (errors st) (workers st ! w)"
    by (simp add: tasks_inv_def)
  with AwaitB obtain q1 q2 where q: "calls_of i (history st) = [q1, q2]"
    "guarded a i q1 = Inr x" "guarded a i q2 = r" and seq: "mode env = ''sequential''"
    by (auto simp: held_ok_def)
  from AwaitB have hold: "holding (workers st ! w) = [i]" by (simp add: holding_def)
  show ?thesis
  proof (cases r)
    case (Inl e)
    let ?E = "[Error i (message e) (code e)]"
    have ti: "turn_inv a w (catch_block w i e st)"
      using count_fail_turn [OF inv w, of i "[]" "errors st @ ?E"] AwaitB Inl
      by (simp add: catch_block_def holding_def awaited_sample_def)
    have "tasks_inv env a (worker_loop env a w (catch_block w i e st))"
    proof (rule finish_tasks [OF t inv w hold _ _ _ _ _ ti, of False ?E])
      show "verdict env a i (calls_of i (history st)) = Some (False, ?E)"
        using q seq Inl by simp
    qed (simp_all add: catch_block_def record_index_def)
    with AwaitB Inl show ?thesis by (simp add: resume_def)
  next
    case (Inr y)
    show ?thesis
    proof (cases "fst x = fst y")
      case True
      let ?st' = "st\<lparr>callDurations := callDurations st @ [snd y], ok := Suc (ok st),
           history := history st @ [CountOk w i]\<rparr>"
      have ti: "turn_inv a w ?st'"
        using count_ok_turn [OF inv w, of i "[snd y]"] AwaitB Inr
        by (simp add: holding_def awaited_sample_def)
      have "tasks_inv env a (worker_loop env a w ?st')"
      proof (rule finish_tasks [OF t inv w hold _ _ _ _ _ ti, of True "[]"])
        show "verdict env a i (calls_of i (history st)) = Some (True, [])"
          using q seq Inr True by simp
      qed simp_all
      with AwaitB Inr True show ?thesis by (simp add: resume_def)
    next
      case False
      let ?E = "[Mismatch i (take 16 (toString_hex (fst x))) (take 16 (toString_hex (fst y)))]"
      let ?st' = "st\<lparr>callDurations := callDurations st @ [snd y], fail := Suc (fail st),
           errors := errors st @ ?E, history := history st @ [CountFail w i]\<rparr>"
      have ti: "turn_inv a w ?st'"
        using count_fail_turn [OF inv w, of i "[snd y]" "errors st @ ?E"] AwaitB Inr
        by (simp add: holding_def awaited_sample_def)
      have "tasks_inv env a (worker_loop env a w ?st')"
      proof (rule finish_tasks [OF t inv w hold _ _ _ _ _ ti, of False ?E])
        show "verdict env a i (calls_of i (history st)) = Some (False, ?E)"
          using q seq Inr False by simp
      qed (simp_all add: record_index_def)
      with AwaitB Inr False show ?thesis by (simp add: resume_def)
    qed
  qed
qed

lemma init_tasks: "tasks_inv env a (init a t0)"
  by (simp add: tasks_inv_def tasks_core_def init_def errors_of_def)

lemma spawn_tasks:
  assumes t: "tasks_inv env a st" and inv: "batch_inv a st"
  shows "tasks_inv env a (spawn env a st (length (workers st)))"
proof -
  let ?st = "st\<lparr>workers := workers st @ [Finished]\<rparr>"
  from t have "tasks_turn env a (length (workers st)) ?st"
    by (auto simp: tasks_inv_def tasks_turn_def tasks_core_def nth_append less_Suc_eq)
  moreover from inv have "counters_inv a (workers st) ?st"
    by (simp add: batch_inv_def counters_inv_def)
  ultimately show ?thesis
    unfolding spawn_def by (rule worker_loop_tasks) simp
qed

lemma spawn_all_tasks:
  "batch_inv a st \<Longrightarrow> tasks_inv env a st \<Longrightarrow> workers st = [] \<Longrightarrow>
   tasks_inv env a (foldl (spawn env a) st [0..<n])"
proof (induction n)
  case 0
  then show ?case by simp
next
  case (Suc n)
  let ?st = "foldl (spawn env a) st [0..<n]"
  from spawn_all [OF Suc.prems(1,3), of env n]
  have b: "batch_inv a ?st" and l: "length (workers ?st) = n" by simp_all
  from Suc have "tasks_inv env a ?st" by simp
  from spawn_tasks [OF this b] l show ?case by simp
qed

lemma start_tasks: "tasks_inv env a (start env a t0)"
proof -
  have "workers (init a t0) = []" by (simp add: init_def)
  from spawn_all_tasks [OF init_inv init_tasks this] show ?thesis
    by (simp add: start_def)
qed

lemma run_tasks:
  "run env a sched st = Some st' \<Longrightarrow> batch_inv a st \<Longrightarrow> tasks_inv env a st \<Longrightarrow>
   tasks_inv env a st'"
proof (induction sched arbitrary: st)
  case Nil
  then show ?case by (simp split: if_splits)
next
  case (Cons c cs)
  show ?case
  proof (cases "suspended st = []")
    case True
    with Cons.prems show ?thesis by simp
  next
    case False
    let ?w = "suspended st ! (c mod length (suspended st))"
    from suspended_pick [OF False, of c] have w: "?w < length (workers st)" by simp
    from Cons.prems(1) False have "run env a cs (resume env a ?w st) = Some st'" by simp
    from Cons.IH [OF this resume_inv [OF Cons.prems(2) w] resume_tasks [OF Cons.prems(3,2) w]]
    show ?thesis .
  qed
qed

lemma finished_tasks:
  assumes run: "run env a sched (start env a t0) = Some st"
    and i: "i \<in> set (popped (history st))"
  shows "verdict env a i (calls_of i (history st)) =
           Some (i \<in> set (oks (history st)), errors_of i (errors st)) \<and>
         count_list (oks (history st)) i + count_list (fails (history st)) i = 1"
proof -
  from start_facts [of a env t0] have b: "batch_inv a (start env a t0)" by simp
  from run_tasks [OF run b start_tasks] have "tasks_core env a st"
    by (simp add: tasks_inv_def)
  moreover from finished_batch [OF run]
  have m: "mset (oks (history st)) + mset (fails (history st)) = mset (popped (history st))"
    and p: "mset (queue st) + mset (popped (history st)) = mset [0..<iterations a]"
    by simp_all
  from m i have "i \<in># mset (oks (history st)) + mset (fails (history st))" by simp
  then have "i \<in> set (oks (history st)) \<union> set (fails (history st))" by simp
  ultimately have v: "verdict env a i (calls_of i (history st)) =
           Some (i \<in> set (oks (history st)), errors_of i (errors st))"
    by (rule tasks_core_counted)
  from p have "distinct (queue st @ popped (history st))"
    by (metis distinct_upt mset_append mset_eq_imp_distinct_iff)
  then have "distinct (popped (history st))" by simp
  with i have "count (mset (popped (history st))) i = 1"
    by (simp add: distinct_count_atmost_1)
  then have "count (mset (oks (history st)) + mset (fails (history st))) i = 1"
    by (simp only: m)
  with v show ?thesis by (simp add: count_list_mset)
qed

lemma guarded_completed:
  "d \<le> 60000 \<Longrightarrow> guarded a i (Settles d (Inr k)) = Inr (k, d)"
  by (simp add: guarded_def withTimeout_def settle_delay_def)


lemma subset_add_mset_right: "A \<subseteq># B \<Longrightarrow> A \<subseteq># add_mset x B"
  by (simp add: subseteq_mset_def le_SucI)

lemma calls_delays_subset:
  "mset (map settle_delay (filter completed (calls_of i h))) \<subseteq># mset (completed_delays h)"
  by (induction i h rule: calls_of.induct) (simp_all add: subset_add_mset_right)

lemma errors_of_rel:
  "list_all2 record_rel es0 es \<Longrightarrow> list_all2 record_rel (errors_of i es0) (errors_of i es)"
proof (induction rule: list_all2_induct)
  case Nil
  show ?case by (simp add: errors_of_def)
next
  case (Cons e0 es0 e es)
  from Cons(1) have "record_index e0 = record_index e"
    by (cases e0; cases e) (simp_all add: record_index_def)
  with Cons show ?case by (simp add: errors_of_def)
qed

lemma record_rel_Mismatch: "list_all2 record_rel xs [Mismatch i x y] \<Longrightarrow> xs = [Mismatch i x y]"
proof -
  assume "list_all2 record_rel xs [Mismatch i x y]"
  then obtain e where xs: "xs = [e]" and r: "record_rel e (Mismatch i x y)"
    by (auto simp: list_all2_Cons2)
  from r have "e = Mismatch i x y" by (cases e) simp_all
  with xs show ?thesis by simp
qed


lemma called_is_popped:
  assumes run: "run env a sched (start env a t0) = Some st"
    and c: "calls_of i (history st) \<noteq> []"
  shows "i \<in> set (popped (history st))"
proof -
  from start_facts [of a env t0] have b: "batch_inv a (start env a t0)" by simp
  from run_tasks [OF run b start_tasks] have "tasks_core env a st"
    by (simp add: tasks_inv_def)
  from tasks_core_unpopped [OF this, of i] c show ?thesis by blast
qed


subsection \<open>The claims about the runner\<close>

lemmas example_simps = start_def init_def spawn_def worker_loop_def runOnce_def resume_def
  catch_block_def suspended_def start0_def init0_def spawn0_def worker_loop0_def runOnce0_def
  resume0_def catch_block0_def suspended0_def mkInput_def variants_def withTimeout_def
  timeout_error_def settle_delay_def variant_name_def Buffer_from_def string_of_nat.simps
  digit_char_def toString_hex_def hex_digit_def Let_def example_env_def example_args_def
  example_turns_def example_turns0_def upt_conv_Cons

text \<open>
  C1: when the join completes after a batch with at least one worker, \<open>ok + fail\<close>
  equals \<open>iterations\<close>; every index below \<open>iterations\<close> was popped exactly once and
  counted exactly once, as \<open>ok\<close> or as \<open>fail\<close>. It holds for every concurrency from 1
  on, every schedule and every behaviour of the primitive, and for both runners.
\<close>

theorem runBatch_ok_plus_fail:
  assumes "0 < concurrency a"
    and "run env a sched (start env a t0) = Some st"
    and "run0 env a sched (start0 env a t0) = Some s0"
  shows "ok st + fail st = iterations a \<and>
         (\<forall>i < iterations a.
            count_list (popped (history st)) i = 1 \<and>
            count_list (oks (history st)) i + count_list (fails (history st)) i = 1) \<and>
         ok st = length (oks (history st)) \<and> fail st = length (fails (history st)) \<and>
         runBatch env a t0 sched = Some (metrics a st) \<and>
         res_ok (metrics a st) + res_fail (metrics a st) = iterations a \<and>
         history0 s0 = history st \<and> ok0 s0 + fail0 s0 = iterations a \<and>
         runBatch0 env a t0 sched = Some (result0 a s0) \<and>
         res0_ok (result0 a s0) + res0_fail (result0 a s0) = iterations a"
proof -
  from finished_batch [OF assms(2)] assms(1) have q: "queue st = []"
    by simp
  from finished_batch [OF assms(2)]
  have c: "ok st = length (oks (history st))" "fail st = length (fails (history st))"
    and m: "mset (oks (history st)) + mset (fails (history st)) = mset (popped (history st))"
    and p0: "mset (queue st) + mset (popped (history st)) = mset [0..<iterations a]"
    by simp_all
  from p0 q have p: "mset (popped (history st)) = mset [0..<iterations a]"
    by simp
  have "size (mset (oks (history st)) + mset (fails (history st))) = size (mset [0..<iterations a])"
    by (simp only: m p)
  then have sum: "ok st + fail st = iterations a"
    using c by simp
  have each: "count_list (popped (history st)) i = 1 \<and>
      count_list (oks (history st)) i + count_list (fails (history st)) i = 1"
    if "i < iterations a" for i
  proof -
    have "count (mset (popped (history st))) i = 1"
      using that by (simp add: p)
    moreover have "count (mset (oks (history st)) + mset (fails (history st))) i = 1"
      using that by (simp add: m p)
    ultimately show ?thesis by (simp add: count_list_mset)
  qed
  from run0_related [OF assms(3)] assms(2) have "state_rel s0 st" by simp
  then have v: "ok0 s0 = ok st" "fail0 s0 = fail st" "history0 s0 = history st"
    by (simp_all add: state_rel_def)
  from sum each c v assms(2,3) show ?thesis
    by (simp add: runBatch_def metrics_def runBatch0_def result0_def Let_def)
qed

theorem runBatch_ok_plus_fail_witness:
  "0 < concurrency example_args \<and>
   (\<exists>st s0.
      run example_env example_args [1, 0, 1, 0, 1, 0] (start example_env example_args 1337) = Some st \<and>
      run0 example_env example_args [1, 0, 1, 0, 1, 0] (start0 example_env example_args 1337) = Some s0 \<and>
      ok st = 1 \<and> fail st = 3 \<and> ok st + fail st = iterations example_args \<and>
      count_list (popped (history st)) 2 = 1 \<and> ok0 s0 + fail0 s0 = iterations example_args)"
proof -
  have pos: "0 < concurrency example_args" by (simp add: example_args_def)
  have "map_option (\<lambda>st. (ok st, fail st))
      (run example_env example_args [1, 0, 1, 0, 1, 0] (start example_env example_args 1337)) =
      Some (1, 3)"
    by (simp add: example_simps)
  then obtain st where st: "run example_env example_args [1, 0, 1, 0, 1, 0]
      (start example_env example_args 1337) = Some st" "ok st = 1" "fail st = 3"
    by auto
  have "map_option ok0
      (run0 example_env example_args [1, 0, 1, 0, 1, 0] (start0 example_env example_args 1337)) =
      Some 1"
    by (simp add: example_simps)
  then obtain s0 where s0: "run0 example_env example_args [1, 0, 1, 0, 1, 0]
      (start0 example_env example_args 1337) = Some s0"
    by auto
  have "2 < iterations example_args" by (simp add: example_args_def)
  with runBatch_ok_plus_fail [OF pos st(1) s0] pos st s0 show ?thesis
    by blast
qed

text \<open>
  C3: in sequential mode, take any index of a finished batch whose two derivations
  both completed within the deadline with different keys. It was counted exactly once
  as \<open>fail\<close> and never as \<open>ok\<close>; exactly one failure record carries it, the mismatch
  record with the first 16 hexadecimal digits of both keys; and both latency samples
  are among the collected ones. No other sample comes from it: the samples are, with
  multiplicity, the delays of the completed invocations, and every turn appends
  exactly the sample of the call that has just returned, the first when the first
  call returns and the second before the comparison (the turn itself is
  \<open>mismatch_turn\<close>). The runner without metrics has the same history and the same
  record.
\<close>

theorem mismatch_is_one_failure:
  assumes run: "run env a sched (start env a t0) = Some st"
    and run0: "run0 env a sched (start0 env a t0) = Some s0"
    and seq: "mode env = ''sequential''"
    and calls: "calls_of i (history st) = [Settles d1 (Inr k1), Settles d2 (Inr k2)]"
    and d: "d1 \<le> 60000" "d2 \<le> 60000" and k: "k1 \<noteq> k2"
  shows "count_list (fails (history st)) i = 1 \<and> count_list (oks (history st)) i = 0 \<and>
         errors_of i (errors st) =
           [Mismatch i (take 16 (toString_hex k1)) (take 16 (toString_hex k2))] \<and>
         mset [d1, d2] \<subseteq># mset (callDurations st) \<and>
         mset (callDurations st) = mset (completed_delays (history st)) \<and>
         callDurations (resume env a w st') = callDurations st' @ awaited_sample (workers st' ! w) \<and>
         awaited_sample (AwaitA j (Inr x)) = [snd x] \<and>
         awaited_sample (AwaitB j x (Inr y)) = [snd y] \<and>
         history0 s0 = history st \<and>
         errors_of i (errors0 s0) =
           [Mismatch i (take 16 (toString_hex k1)) (take 16 (toString_hex k2))]"
proof -
  let ?m = "Mismatch i (take 16 (toString_hex k1)) (take 16 (toString_hex k2))"
  from calls have "calls_of i (history st) \<noteq> []" by simp
  from finished_tasks [OF run called_is_popped [OF run this]]
  have v: "verdict env a i (calls_of i (history st)) =
           Some (i \<in> set (oks (history st)), errors_of i (errors st))"
    and one: "count_list (oks (history st)) i + count_list (fails (history st)) i = 1"
    by simp_all
  from v calls seq k d have no: "i \<notin> set (oks (history st))"
    and e: "errors_of i (errors st) = [?m]"
    by (simp_all add: guarded_completed)
  from no have z: "count_list (oks (history st)) i = 0" by simp
  have "mset (map settle_delay (filter completed (calls_of i (history st)))) \<subseteq>#
      mset (completed_delays (history st))"
    by (rule calls_delays_subset)
  with calls d finished_batch [OF run] have s: "mset [d1, d2] \<subseteq># mset (callDurations st)"
    by (simp add: completed_def settle_delay_def)
  from run0_related [OF run0] run have rel: "state_rel s0 st" by simp
  then have h: "history0 s0 = history st"
    and "list_all2 record_rel (errors_of i (errors0 s0)) (errors_of i (errors st))"
    by (simp_all add: state_rel_def errors_of_rel)
  then have "errors_of i (errors0 s0) = [?m]"
    by (simp add: e record_rel_Mismatch)
  with one z e s h finished_batch [OF run] resume_callDurations [of env a w st']
  show ?thesis by (simp add: awaited_sample_def)
qed

theorem mismatch_is_one_failure_witness:
  "\<exists>st s0.
     run example_env example_args [1, 0, 1, 0, 1, 0] (start example_env example_args 1337) = Some st \<and>
     run0 example_env example_args [1, 0, 1, 0, 1, 0] (start0 example_env example_args 1337) = Some s0 \<and>
     mode example_env = ''sequential'' \<and>
     calls_of 1 (history st) = [Settles 5 (Inr [1, 2, 3, 4]), Settles 5 (Inr [9, 9, 9, 9])] \<and>
     (5 :: rat) \<le> 60000 \<and> [1, 2, 3, 4 :: byte] \<noteq> [9, 9, 9, 9] \<and>
     count_list (fails (history st)) 1 = 1 \<and> count_list (oks (history st)) 1 = 0 \<and>
     errors_of 1 (errors st) = [Mismatch 1 ''01020304'' ''09090909''] \<and>
     errors_of 1 (errors0 s0) = [Mismatch 1 ''01020304'' ''09090909''] \<and>
     mset [5, 5] \<subseteq># mset (callDurations st)"
proof -
  have "map_option (\<lambda>st. calls_of 1 (history st))
      (run example_env example_args [1, 0, 1, 0, 1, 0] (start example_env example_args 1337)) =
      Some [Settles 5 (Inr [1, 2, 3, 4]), Settles 5 (Inr [9, 9, 9, 9])]"
    by (simp add: example_simps)
  then obtain st where st: "run example_env example_args [1, 0, 1, 0, 1, 0]
      (start example_env example_args 1337) = Some st"
    "calls_of 1 (history st) = [Settles 5 (Inr [1, 2, 3, 4]), Settles 5 (Inr [9, 9, 9, 9])]"
    by auto
  have "map_option ok0
      (run0 example_env example_args [1, 0, 1, 0, 1, 0] (start0 example_env example_args 1337)) =
      Some 1"
    by (simp add: example_simps)
  then obtain s0 where s0: "run0 example_env example_args [1, 0, 1, 0, 1, 0]
      (start0 example_env example_args 1337) = Some s0"
    by auto
  have m: "mode example_env = ''sequential''" by (simp add: example_env_def)
  have d: "(5 :: rat) \<le> 60000" and k: "[1, 2, 3, 4 :: byte] \<noteq> [9, 9, 9, 9]" by simp_all
  have h: "take 16 (toString_hex [1, 2, 3, 4]) = ''01020304''"
    "take 16 (toString_hex [9, 9, 9, 9]) = ''09090909''"
    by (simp_all add: toString_hex_def hex_digit_def)
  note t = mismatch_is_one_failure [where w = 0 and st' = st and j = 0 and x = "([], 0)"
      and y = "([], 0)", OF st(1) s0 m st(2) d d k]
  from t have c: "mset [5, 5] \<subseteq># mset (callDurations st)" by blast
  from t have "count_list (fails (history st)) 1 = 1" "count_list (oks (history st)) 1 = 0"
    "errors_of 1 (errors st) =
       [Mismatch 1 (take 16 (toString_hex [1, 2, 3, 4])) (take 16 (toString_hex [9, 9, 9, 9]))]"
    "errors_of 1 (errors0 s0) =
       [Mismatch 1 (take 16 (toString_hex [1, 2, 3, 4])) (take 16 (toString_hex [9, 9, 9, 9]))]"
    by blast+
  with c st s0 m d k h show ?thesis
    by (intro exI [of _ st] exI [of _ s0]) simp
qed



text \<open>
  C9: after a batch, the samples handed to the percentile computation are, with
  multiplicity, the settle delays of the invocations that completed within the
  deadline without being rejected. A turn appends exactly the sample of the call the
  worker awaited, and none when that call was rejected or timed out.
\<close>

theorem samples_are_completed_calls:
  assumes "run env a sched (start env a t0) = Some st"
  shows "mset (callDurations st) = mset (completed_delays (history st)) \<and>
         mset (sort (callDurations st)) = mset (completed_delays (history st)) \<and>
         res_p50 (metrics a st) = percentile (sort (callDurations st)) 50 \<and>
         res_p90 (metrics a st) = percentile (sort (callDurations st)) 90 \<and>
         res_p99 (metrics a st) = percentile (sort (callDurations st)) 99 \<and>
         callDurations (resume env a w st') = callDurations st' @ awaited_sample (workers st' ! w) \<and>
         awaited_sample (AwaitA i (Inl e)) = [] \<and> awaited_sample (AwaitB i x (Inl e)) = []"
  using finished_batch [OF assms] resume_callDurations [of env a w st']
  by (simp add: metrics_def Let_def awaited_sample_def)

theorem samples_are_completed_calls_witness:
  "\<exists>st. run example_env example_args [1, 0, 1, 0, 1, 0] (start example_env example_args 1337) =
      Some st \<and>
    callDurations st = [7, 5, 7, 5] \<and>
    mset (callDurations st) = mset (completed_delays (history st)) \<and>
    res_p50 (metrics example_args st) = Num 5 \<and> res_p99 (metrics example_args st) = Num 7"
proof -
  have "map_option callDurations
      (run example_env example_args [1, 0, 1, 0, 1, 0] (start example_env example_args 1337)) =
      Some [7, 5, 7, 5]"
    by (simp add: example_simps)
  then obtain st where st: "run example_env example_args [1, 0, 1, 0, 1, 0]
      (start example_env example_args 1337) = Some st" "callDurations st = [7, 5, 7, 5]"
    by auto
  have "percentile (sort [7, 5, 7, 5]) 50 = Num 5" "percentile (sort [7, 5, 7, 5]) 99 = Num 7"
    by (simp_all add: percentile_def scaled_rank_def binary64_eval)
  with samples_are_completed_calls [OF st(1)] st show ?thesis
    by auto
qed

text \<open>
  C10: on the same configuration, primitive and schedule the two runners both return
  or both are still running, and when they return they report the same \<open>ok\<close>, the same
  \<open>fail\<close> and failure records of the same types at the same indices, in the same
  order.
\<close>

theorem runBatch_versions_agree:
  "rel_option
     (\<lambda>r0 r. res0_ok r0 = res_ok r \<and> res0_fail r0 = res_fail r \<and>
        map record_type (res0_errors r0) = map record_type (res_errors r) \<and>
        map record_index (res0_errors r0) = map record_index (res_errors r))
     (runBatch0 env a t0 sched) (runBatch env a t0 sched)"
proof -
  from run_sim [OF start_sim [of env a t0], of env a sched]
  show ?thesis
  proof (cases rule: option.rel_cases)
    case None
    then show ?thesis by (simp add: runBatch0_def runBatch_def)
  next
    case (Some s0 s)
    from Some(3) have "ok0 s0 = ok s" "fail0 s0 = fail s"
      and "list_all2 record_rel (errors0 s0) (errors s)"
      by (simp_all add: state_rel_def)
    with record_rel_key [of "errors0 s0" "errors s"] Some(1,2) show ?thesis
      by (simp add: runBatch0_def runBatch_def result0_def metrics_def Let_def)
  qed
qed

theorem runBatch_versions_agree_witness:
  "map_option (\<lambda>r. (res0_ok r, res0_fail r, res0_errors r))
     (runBatch0 example_env example_args 1337 [1, 0, 1, 0, 1, 0]) =
     Some (1, 3, [Error 2 (Some ''boom'') (Some ''ERR_X''), Mismatch 1 ''01020304'' ''09090909'',
       Error 0 (Some ''timeout after 60000ms: callback i=0 #1'') None]) \<and>
   map_option (\<lambda>r. (res_ok r, res_fail r, res_errors r))
     (runBatch example_env example_args 1337 [1, 0, 1, 0, 1, 0]) =
     Some (1, 3, [Error 2 (Some ''boom'') (Some ''ERR_X''), Mismatch 1 ''01020304'' ''09090909'',
       Error 0 (Some ''timeout after 60000ms: callback i=0'') None]) \<and>
   rel_option
     (\<lambda>r0 r. res0_ok r0 = res_ok r \<and> res0_fail r0 = res_fail r \<and>
        map record_type (res0_errors r0) = map record_type (res_errors r) \<and>
        map record_index (res0_errors r0) = map record_index (res_errors r))
     (runBatch0 example_env example_args 1337 [1, 0, 1, 0, 1, 0])
     (runBatch example_env example_args 1337 [1, 0, 1, 0, 1, 0])"
proof -
  have "map_option (\<lambda>r. (res0_ok r, res0_fail r, res0_errors r))
     (runBatch0 example_env example_args 1337 [1, 0, 1, 0, 1, 0]) =
     Some (1, 3, [Error 2 (Some ''boom'') (Some ''ERR_X''), Mismatch 1 ''01020304'' ''09090909'',
       Error 0 (Some ''timeout after 60000ms: callback i=0 #1'') None])"
    by (simp add: runBatch0_def result0_def example_simps)
  moreover have "map_option (\<lambda>r. (res_ok r, res_fail r, res_errors r))
     (runBatch example_env example_args 1337 [1, 0, 1, 0, 1, 0]) =
     Some (1, 3, [Error 2 (Some ''boom'') (Some ''ERR_X''), Mismatch 1 ''01020304'' ''09090909'',
       Error 0 (Some ''timeout after 60000ms: callback i=0'') None])"
    by (simp add: runBatch_def metrics_def example_simps)
  ultimately show ?thesis
    using runBatch_versions_agree [of example_env example_args 1337 "[1, 0, 1, 0, 1, 0]"]
    by blast
qed

end
